theory Spec2Isabelle
  imports Main "HOL-Library.AList"
begin

section \<open>Python strings\<close>

text \<open>
  A Python \<open>str\<close> is a sequence of Unicode code points, so a string is modelled as a list
  of code points (natural numbers), not as a list of bytes: the Turkish letters of
  \<open>TR_MAPPING\<close> are single characters of the source's strings.
  \<open>str\<close> turns an ASCII literal into its code points.
\<close>

type_synonym codepoint = nat
type_synonym pystr = "codepoint list"

definition str :: "string \<Rightarrow> pystr" where
  "str s = map of_char s"

abbreviation (input) DOT :: codepoint where "DOT \<equiv> 46"
abbreviation (input) USCORE :: codepoint where "USCORE \<equiv> 95"

definition is_ascii_upper :: "codepoint \<Rightarrow> bool" where
  "is_ascii_upper c = (65 \<le> c \<and> c \<le> 90)"

definition is_ascii_lower :: "codepoint \<Rightarrow> bool" where
  "is_ascii_lower c = (97 \<le> c \<and> c \<le> 122)"

definition is_ascii_digit :: "codepoint \<Rightarrow> bool" where
  "is_ascii_digit c = (48 \<le> c \<and> c \<le> 57)"

text \<open>
  \<open>str.lower\<close> and \<open>str.isdigit\<close> belong to the Python runtime, and their Unicode tables
  are not part of the repository. On ASCII both are fixed: \<open>A\<close>..\<open>Z\<close> go to \<open>a\<close>..\<open>z\<close>,
  every other ASCII character is its own lower case, and the ASCII digits are \<open>0\<close>..\<open>9\<close>.
  What they do on a code point from 128 on is a parameter: \<open>lower_tab pre c suf\<close> is the
  lower case of the non-ASCII character \<open>c\<close> standing between \<open>pre\<close> and \<open>suf\<close> (the
  context is there because Unicode lower-casing looks at it for the Greek final sigma, and
  the result is a string because one character may become several), and \<open>digit_tab c\<close>
  says whether \<open>c\<close> is a digit.
\<close>

record unicode =
  lower_tab :: "pystr \<Rightarrow> codepoint \<Rightarrow> pystr \<Rightarrow> pystr"
  digit_tab :: "codepoint \<Rightarrow> bool"

definition lower_char :: "unicode \<Rightarrow> pystr \<Rightarrow> codepoint \<Rightarrow> pystr \<Rightarrow> pystr" where
  "lower_char U pre c suf =
     (if is_ascii_upper c then [c + 32]
      else if c < 128 then [c]
      else lower_tab U pre c suf)"

fun lower_from :: "unicode \<Rightarrow> pystr \<Rightarrow> pystr \<Rightarrow> pystr" where
  "lower_from U pre [] = []"
| "lower_from U pre (c # cs) = lower_char U pre c cs @ lower_from U (pre @ [c]) cs"

definition lower :: "unicode \<Rightarrow> pystr \<Rightarrow> pystr" where
  "lower U s = lower_from U [] s"

definition isdigit :: "unicode \<Rightarrow> codepoint \<Rightarrow> bool" where
  "isdigit U c = (if c < 128 then is_ascii_digit c else digit_tab U c)"

text \<open>
  The one fact of the Unicode tables the normalizer relies on: lower-casing a non-ASCII
  character never produces an ASCII capital letter.
\<close>

definition lower_tab_ok :: "unicode \<Rightarrow> bool" where
  "lower_tab_ok U =
     (\<forall>pre c suf d. 128 \<le> c \<longrightarrow> d \<in> set (lower_tab U pre c suf) \<longrightarrow> \<not> is_ascii_upper d)"

text \<open>
  A small instance of the tables, for concrete runs. As in Unicode, the Kelvin sign
  U+212A has the lower case \<open>k\<close> and the capital E with acute accent (U+00C9) has
  U+00E9; every other non-ASCII character is left as it is here, and superscript two
  (U+00B2) is a digit.
\<close>

definition sample_unicode :: unicode where
  "sample_unicode =
     \<lparr> lower_tab = (\<lambda>pre c suf. if c = 8490 then [107] else if c = 201 then [233] else [c]),
       digit_tab = (\<lambda>c. c = 178) \<rparr>"

text \<open>The string methods the program calls.\<close>

definition startswith :: "pystr \<Rightarrow> pystr \<Rightarrow> bool" where
  "startswith s p = (take (length p) s = p)"

definition endswith :: "pystr \<Rightarrow> pystr \<Rightarrow> bool" where
  "endswith s p = (length p \<le> length s \<and> drop (length s - length p) s = p)"

text \<open>\<open>s.split(sep)[0]\<close>: the part of \<open>s\<close> before the first \<open>sep\<close>.\<close>

definition split_first :: "pystr \<Rightarrow> codepoint \<Rightarrow> pystr" where
  "split_first s sep = takeWhile (\<lambda>c. c \<noteq> sep) s"

definition replace :: "pystr \<Rightarrow> codepoint \<Rightarrow> codepoint \<Rightarrow> pystr" where
  "replace s a b = map (\<lambda>c. if c = a then b else c) s"

definition translate :: "pystr \<Rightarrow> (codepoint \<times> codepoint) list \<Rightarrow> pystr" where
  "translate s tab = map (\<lambda>c. case map_of tab c of Some d \<Rightarrow> d | None \<Rightarrow> c) s"

definition strip :: "pystr \<Rightarrow> codepoint \<Rightarrow> pystr" where
  "strip s ch = rev (dropWhile (\<lambda>c. c = ch) (rev (dropWhile (\<lambda>c. c = ch) s)))"

section \<open>The Name Normalizer\<close>

text \<open>
  \<open>TR_MAPPING = str.maketrans("...", "iIgGuUsSoOcC")\<close>: the twelve Turkish letters, in
  the order of the source (dotless i, dotted capital I, g breve, G breve, u and U
  diaeresis, s and S cedilla, o and O diaeresis, c and C cedilla), each paired with the
  ASCII letter at the same position.
\<close>

definition TR_MAPPING :: "(codepoint \<times> codepoint) list" where
  "TR_MAPPING =
     zip [305, 304, 287, 286, 252, 220, 351, 350, 246, 214, 231, 199]
         (str ''iIgGuUsSoOcC'')"

text \<open>\<open>re.sub(r"[^a-zA-Z0-9_]", "_", text)\<close>\<close>

definition in_word_class :: "codepoint \<Rightarrow> bool" where
  "in_word_class c =
     (is_ascii_lower c \<or> is_ascii_upper c \<or> is_ascii_digit c \<or> c = USCORE)"

definition sub_special :: "pystr \<Rightarrow> pystr" where
  "sub_special s = map (\<lambda>c. if in_word_class c then c else USCORE) s"

text \<open>
  \<open>re.sub(r"_+", "_", text)\<close>: scanning from the left, a maximal run of underscores is
  one match and is replaced by a single underscore.
\<close>

function sub_underscores :: "pystr \<Rightarrow> pystr" where
  "sub_underscores [] = []"
| "sub_underscores (c # cs) =
     (if c = USCORE then USCORE # sub_underscores (dropWhile (\<lambda>d. d = USCORE) cs)
      else c # sub_underscores cs)"
  by pat_completeness auto
termination
  by (relation "measure length") (auto simp: less_Suc_eq_le length_dropWhile_le)

definition clean_text :: "unicode \<Rightarrow> pystr \<Rightarrow> pystr" where
  "clean_text U text0 =
     (let base_name =
            (if DOT \<in> set text0 \<and> \<not> startswith text0 [DOT] then split_first text0 DOT
             else text0);
          text1 = replace base_name DOT USCORE;
          text2 = lower U (translate text1 TR_MAPPING);
          text3 = sub_special text2;
          text4 = sub_underscores text3;
          text5 = strip text4 USCORE
      in if text5 \<noteq> [] \<and> isdigit U (hd text5) then str ''col_'' @ text5 else text5)"


section \<open>Exceptions, dictionaries, paths\<close>

text \<open>
  An exception is a value. \<open>ValueError\<close> carries its message, \<open>JSONDecodeError\<close> and
  \<open>KeyError\<close> are the two the program names or can cause itself, and \<open>Raised n\<close> stands
  for any other exception below \<open>Exception\<close> that a library call raises (an I/O error, a
  parse error, a database error), told apart by \<open>n\<close>.
\<close>

datatype exn = ValueError string | JSONDecodeError | KeyError pystr | Raised nat

text \<open>
  A \<open>dict\<close> keeps its keys in insertion order: it is an association list with distinct
  keys. \<open>d[k] = v\<close> is \<open>AList.update k v d\<close> (the value is replaced in place when the
  key is there, the pair is appended otherwise); \<open>d.pop(k)\<close> raises \<open>KeyError\<close> when the key
  is missing.
\<close>

type_synonym 'v dict = "(pystr \<times> 'v) list"

definition dict_pop :: "'v dict \<Rightarrow> pystr \<Rightarrow> exn + ('v \<times> 'v dict)" where
  "dict_pop d k = (case map_of d k of None \<Rightarrow> Inl (KeyError k) | Some v \<Rightarrow> Inr (v, AList.delete k d))"

text \<open>\<open>sep.join(parts)\<close>\<close>

fun join :: "pystr \<Rightarrow> pystr list \<Rightarrow> pystr" where
  "join sep [] = []"
| "join sep [x] = x"
| "join sep (x # y # ys) = x @ sep @ join sep (y # ys)"

text \<open>
  \<open>os.path\<close> on a POSIX system. \<open>rfind\<close> is \<open>str.rfind\<close> for one character: the last
  index where it stands, or \<open>-1\<close>. \<open>splitext\<close> follows the library: the extension starts
  at the last dot, if that dot comes after the last slash and some character between the
  slash and the dot (the slice \<open>p[sepIndex + 1 : dotIndex]\<close>) is not a dot; otherwise the
  extension is empty.
\<close>

abbreviation (input) SLASH :: codepoint where "SLASH \<equiv> 47"

fun rfind_from :: "pystr \<Rightarrow> codepoint \<Rightarrow> int \<Rightarrow> int \<Rightarrow> int" where
  "rfind_from [] c i found = found"
| "rfind_from (x # xs) c i found = rfind_from xs c (i + 1) (if x = c then i else found)"

definition rfind :: "pystr \<Rightarrow> codepoint \<Rightarrow> int" where
  "rfind s c = rfind_from s c 0 (- 1)"

definition splitext :: "pystr \<Rightarrow> pystr \<times> pystr" where
  "splitext p =
     (let sepIndex = rfind p SLASH; dotIndex = rfind p DOT
      in if dotIndex > sepIndex
            \<and> list_ex (\<lambda>c. c \<noteq> DOT)
                  (take (nat dotIndex - nat (sepIndex + 1)) (drop (nat (sepIndex + 1)) p))
         then (take (nat dotIndex) p, drop (nat dotIndex) p)
         else (p, []))"

definition path_join :: "pystr \<Rightarrow> pystr \<Rightarrow> pystr" where
  "path_join a b =
     (if startswith b [SLASH] then b
      else if a = [] \<or> endswith a [SLASH] then a @ b
      else a @ [SLASH] @ b)"

section \<open>Tables\<close>

text \<open>
  A pandas \<open>DataFrame\<close>, as far as the program looks at it: the column labels, the dtype
  of each column under the name pandas prints for it (\<open>int64\<close>, \<open>object\<close>,
  \<open>datetime64[ns]\<close>, ...), and the cell values, which the program never inspects. Column
  labels are taken to be strings, as they are for CSV and JSON input.
\<close>

record 'a dataframe =
  columns :: "pystr list"
  dtypes :: "pystr list"
  cells :: 'a

section \<open>Calls that change the outside world\<close>

text \<open>
  Every call that acts on the file system or on the database is logged together with its
  outcome (\<open>None\<close>: it returned, \<open>Some e\<close>: it raised \<open>e\<close>). The outside world is a
  parameter: a function that says, from the log so far and the next call, how that call
  ends. Nothing is assumed about it, so a call may fail at any point of a run.
\<close>

datatype 'a call =
    Makedirs pystr
  | Rename pystr pystr
  | ToCsv pystr "pystr list" "'a dataframe"
  | Connect "(pystr \<times> pystr) list"
  | Cursor
  | Execute pystr "pystr list"
  | OpenFile pystr
  | CopyExpert pystr pystr
  | CloseFile pystr
  | Commit
  | Rollback
  | CloseCursor
  | CloseConn

type_synonym 'a log = "('a call \<times> exn option) list"
type_synonym 'a world = "'a log \<Rightarrow> 'a call \<Rightarrow> exn option"

definition do_call :: "'a world \<Rightarrow> 'a call \<Rightarrow> 'a log \<Rightarrow> exn option \<times> 'a log" where
  "do_call W c lg = (W lg c, lg @ [(c, W lg c)])"

text \<open>
  Leaving a \<open>with\<close> block calls the resource's close method, whether the block returned or
  raised; if the close itself raises, that exception is the one that leaves the block.
\<close>

definition on_exit :: "'a world \<Rightarrow> 'a call \<Rightarrow> exn option \<times> 'a log \<Rightarrow> exn option \<times> 'a log" where
  "on_exit W c r =
     (case do_call W c (snd r) of
        (Some e, lg) \<Rightarrow> (Some e, lg)
      | (None, lg) \<Rightarrow> (fst r, lg))"

text \<open>The calls of the log that are a given call, whatever their outcome.\<close>

definition issued :: "'a call \<Rightarrow> 'a log \<Rightarrow> nat" where
  "issued c lg = length (filter (\<lambda>e. fst e = c) lg)"

section \<open>File Discovery\<close>

definition excel_extensions :: "pystr list" where
  "excel_extensions =
     [str ''.xlsx'', str ''.xls'', str ''.xlsm'', str ''.xlsb'', str ''.odf'', str ''.ods'',
      str ''.odt'']"

text \<open>
  The loop of \<open>find_data_files\<close> over \<open>all_files = os.listdir(os.getcwd())\<close>, with the
  list \<open>data_files\<close> it appends to.
\<close>

fun find_loop :: "unicode \<Rightarrow> pystr list \<Rightarrow> pystr list \<Rightarrow> pystr list" where
  "find_loop U [] data_files = data_files"
| "find_loop U (f # fs) data_files =
     (if lower U f \<in> set [str ''config.json'', str ''config.template.json'']
      then find_loop U fs data_files
      else if endswith f (str ''.csv'') \<or> endswith f (str ''.json'')
              \<or> list_ex (\<lambda>ext. endswith f ext) excel_extensions
      then find_loop U fs (data_files @ [f])
      else find_loop U fs data_files)"

definition find_data_files :: "unicode \<Rightarrow> pystr list \<Rightarrow> pystr list" where
  "find_data_files U all_files = find_loop U all_files []"

section \<open>Staging Mover\<close>

text \<open>
  \<open>configure_data_dir\<close>: \<open>os.makedirs\<close> raises nothing but an \<open>OSError\<close>, which the
  first \<open>try\<close> swallows, and the \<open>try\<close> around each \<open>os.rename\<close> swallows every
  exception, so the function returns whatever the calls do.
\<close>

fun move_loop :: "'a world \<Rightarrow> pystr \<Rightarrow> pystr \<Rightarrow> pystr list \<Rightarrow> 'a log \<Rightarrow> 'a log" where
  "move_loop W cwd data_directory [] lg = lg"
| "move_loop W cwd data_directory (f # fs) lg =
     move_loop W cwd data_directory fs
       (snd (do_call W (Rename (path_join cwd f) (path_join data_directory f)) lg))"

definition configure_data_dir :: "'a world \<Rightarrow> pystr \<Rightarrow> pystr list \<Rightarrow> pystr \<Rightarrow> 'a log \<Rightarrow> 'a log" where
  "configure_data_dir W cwd data_files data_directory lg =
     move_loop W cwd data_directory data_files (snd (do_call W (Makedirs data_directory) lg))"

section \<open>Tabular Loader\<close>

text \<open>
  The readers are library calls: \<open>pd.read_csv\<close>, \<open>pd.read_excel(..., sheet_name=None)\<close>
  (all sheets, in order, under their names) and, for JSON, opening the file,
  \<open>json.load\<close> and \<open>pd.json_normalize\<close> together. Each returns a table or raises.
\<close>

record 'a readers =
  read_csv :: "pystr \<Rightarrow> exn + 'a dataframe"
  read_excel :: "pystr \<Rightarrow> exn + (pystr \<times> 'a dataframe) list"
  read_json :: "pystr \<Rightarrow> exn + 'a dataframe"

text \<open>The local state of the loop: the dictionary \<open>df\<close> and \<open>error_count\<close>.\<close>

type_synonym 'a load_state = "'a dataframe dict \<times> nat"

text \<open>The \<open>for sheet_name, sheet_df in excel_data.items()\<close> loop of a workbook with several sheets.\<close>

fun sheets_loop :: "unicode \<Rightarrow> pystr \<Rightarrow> (pystr \<times> 'a dataframe) list \<Rightarrow> 'a dataframe dict \<Rightarrow> 'a dataframe dict" where
  "sheets_loop U base_name [] df = df"
| "sheets_loop U base_name ((sheet_name, sheet_df) # rest) df =
     (let clean_sheet_name = clean_text U sheet_name;
          new_key = base_name @ str ''_'' @ clean_sheet_name @ str ''.xlsx''
      in sheets_loop U base_name rest (AList.update new_key sheet_df df))"

text \<open>
  The body of the outer \<open>try\<close> for one file. The Excel and the JSON branch have a
  \<open>try\<close> of their own, whose handlers count the error and \<open>continue\<close>; an exception of
  \<open>pd.read_csv\<close> leaves the body (\<open>Inl\<close>) and is caught by the outer handler.
\<close>

definition load_body :: "unicode \<Rightarrow> 'a readers \<Rightarrow> pystr \<Rightarrow> pystr \<Rightarrow> 'a load_state \<Rightarrow> exn + 'a load_state" where
  "load_body U R data_path f st =
     (let df = fst st; error_count = snd st;
          file_path = path_join data_path f;
          file_extension = lower U (snd (splitext f))
      in if file_extension = str ''.csv'' then
           (case read_csv R file_path of
              Inl e \<Rightarrow> Inl e
            | Inr t \<Rightarrow> Inr (AList.update f t df, error_count))
         else if file_extension \<in> set excel_extensions then
           (case read_excel R file_path of
              Inl e \<Rightarrow> Inr (df, error_count + 1)
            | Inr excel_data \<Rightarrow>
                (case excel_data of
                   [(sheet_name, sheet_df)] \<Rightarrow> Inr (AList.update f sheet_df df, error_count)
                 | _ \<Rightarrow> Inr (sheets_loop U (fst (splitext f)) excel_data df, error_count)))
         else if file_extension = str ''.json'' then
           (case read_json R file_path of
              Inl e \<Rightarrow> Inr (df, error_count + 1)
            | Inr t \<Rightarrow> Inr (AList.update f t df, error_count))
         else Inr (df, error_count + 1))"

definition load_file :: "unicode \<Rightarrow> 'a readers \<Rightarrow> pystr \<Rightarrow> pystr \<Rightarrow> 'a load_state \<Rightarrow> 'a load_state" where
  "load_file U R data_path f st =
     (case load_body U R data_path f st of
        Inl e \<Rightarrow> (fst st, snd st + 1)
      | Inr st' \<Rightarrow> st')"

fun load_loop :: "unicode \<Rightarrow> 'a readers \<Rightarrow> pystr \<Rightarrow> pystr list \<Rightarrow> 'a load_state \<Rightarrow> 'a load_state" where
  "load_loop U R data_path [] st = st"
| "load_loop U R data_path (f # fs) st = load_loop U R data_path fs (load_file U R data_path f st)"

text \<open>
  \<open>create_df_dict\<close> ends with \<open>return df\<close>: of the final state \<open>(df, error_count)\<close> only
  the dictionary is returned; the count goes to the log message.
\<close>

definition create_df_state :: "unicode \<Rightarrow> 'a readers \<Rightarrow> pystr \<Rightarrow> pystr list \<Rightarrow> pystr \<Rightarrow> 'a load_state" where
  "create_df_state U R cwd data_files data_directory =
     load_loop U R (path_join cwd data_directory) data_files ([], 0)"

definition create_df_dict :: "unicode \<Rightarrow> 'a readers \<Rightarrow> pystr \<Rightarrow> pystr list \<Rightarrow> pystr \<Rightarrow> 'a dataframe dict" where
  "create_df_dict U R cwd data_files data_directory =
     fst (create_df_state U R cwd data_files data_directory)"

section \<open>Renaming the tables\<close>

text \<open>
  The loop of \<open>clean_file_names\<close>. \<open>dataframe[clean_name] = dataframe.pop(f)\<close> evaluates
  the right-hand side first; a missing key raises out of the function.
\<close>

fun clean_names_loop :: "unicode \<Rightarrow> pystr list \<Rightarrow> pystr list \<times> 'v dict \<Rightarrow> exn + (pystr list \<times> 'v dict)" where
  "clean_names_loop U [] st = Inr st"
| "clean_names_loop U (f # fs) st =
     (let cleaned_files = fst st; dataframe = snd st;
          clean_name = clean_text U f
      in case dict_pop dataframe f of
           Inl e \<Rightarrow> Inl e
         | Inr (v, popped) \<Rightarrow>
             clean_names_loop U fs (cleaned_files @ [clean_name], AList.update clean_name v popped))"

definition clean_file_names :: "unicode \<Rightarrow> pystr list \<Rightarrow> 'v dict \<Rightarrow> exn + (pystr list \<times> 'v dict)" where
  "clean_file_names U data_files dataframe = clean_names_loop U data_files ([], dataframe)"

section \<open>Schema Deriver\<close>

definition DTYPE_MAPPING :: "(pystr \<times> pystr) list" where
  "DTYPE_MAPPING =
     [(str ''int8'', str ''SMALLINT''),
      (str ''int16'', str ''SMALLINT''),
      (str ''int32'', str ''INTEGER''),
      (str ''int64'', str ''BIGINT''),
      (str ''uint8'', str ''SMALLINT''),
      (str ''uint16'', str ''INTEGER''),
      (str ''uint32'', str ''BIGINT''),
      (str ''uint64'', str ''BIGINT''),
      (str ''float16'', str ''REAL''),
      (str ''float32'', str ''REAL''),
      (str ''float64'', str ''DOUBLE PRECISION''),
      (str ''decimal'', str ''NUMERIC''),
      (str ''datetime64[ns]'', str ''TIMESTAMP''),
      (str ''datetime64[us]'', str ''TIMESTAMP''),
      (str ''datetime64[ms]'', str ''TIMESTAMP''),
      (str ''datetime64[s]'', str ''TIMESTAMP''),
      (str ''datetime64[D]'', str ''DATE''),
      (str ''timedelta64[ns]'', str ''INTERVAL''),
      (str ''timedelta64[us]'', str ''INTERVAL''),
      (str ''timedelta64[ms]'', str ''INTERVAL''),
      (str ''timedelta64[s]'', str ''INTERVAL''),
      (str ''timedelta64[D]'', str ''INTERVAL''),
      (str ''bool'', str ''BOOLEAN''),
      (str ''object'', str ''VARCHAR''),
      (str ''string'', str ''VARCHAR''),
      (str ''category'', str ''VARCHAR''),
      (str ''bytes'', str ''BYTEA''),
      (str ''default'', str ''VARCHAR'')]"

text \<open>
  \<open>Series.replace(mapping)\<close> on one element: an element equal to a key of the mapping is
  replaced by the key's value, every other element is left as it is. The elements here are
  dtypes, which compare equal to their name, and a dtype that is left as it is prints as
  its name in the schema string.
\<close>

definition series_replace :: "(pystr \<times> pystr) list \<Rightarrow> pystr \<Rightarrow> pystr" where
  "series_replace mapping v = (case map_of mapping v of Some w \<Rightarrow> w | None \<Rightarrow> v)"

text \<open>
  One round of the loop of \<open>process_dataframes\<close>: the schema string of a table, and the
  table with its column labels cleaned (the assignment to \<open>df.columns\<close> changes the table
  that the dictionary holds).
\<close>

definition derive_schema :: "unicode \<Rightarrow> 'a dataframe \<Rightarrow> pystr \<times> 'a dataframe" where
  "derive_schema U df =
     (let df1 = df\<lparr>columns := map (clean_text U) (columns df)\<rparr>;
          col_types = map (series_replace DTYPE_MAPPING) (dtypes df1);
          col_pairs = zip (columns df1) col_types
      in (join (str '', '') (map (\<lambda>(col, type). col @ str '' '' @ type) col_pairs), df1))"

fun process_loop :: "unicode \<Rightarrow> 'a dataframe dict \<Rightarrow> pystr dict \<Rightarrow> pystr dict \<times> 'a dataframe dict" where
  "process_loop U [] schemas = (schemas, [])"
| "process_loop U ((file_name, df) # rest) schemas =
     (let (schema, df1) = derive_schema U df;
          (schemas1, rest1) = process_loop U rest (AList.update file_name schema schemas)
      in (schemas1, (file_name, df1) # rest1))"

definition process_dataframes :: "unicode \<Rightarrow> 'a dataframe dict \<Rightarrow> pystr dict \<times> 'a dataframe dict" where
  "process_dataframes U dataframes_dict = process_loop U dataframes_dict []"

section \<open>Serializer\<close>

text \<open>
  The loop of \<open>save_df_to_csv\<close>. Its loop variable is named \<open>clean_file_name\<close> like the
  function's first parameter, so the parameter is rebound before it is ever read.
\<close>

fun save_loop :: "'a world \<Rightarrow> 'a dataframe dict \<Rightarrow> 'a log \<Rightarrow> exn option \<times> 'a log" where
  "save_loop W [] lg = (None, lg)"
| "save_loop W ((clean_file_name, df) # rest) lg =
     (case do_call W (ToCsv (clean_file_name @ str ''.csv'') (columns df) df) lg of
        (Some e, lg1) \<Rightarrow> (Some e, lg1)
      | (None, lg1) \<Rightarrow> save_loop W rest lg1)"

definition save_df_to_csv :: "'a world \<Rightarrow> 'b \<Rightarrow> 'a dataframe dict \<Rightarrow> 'a log \<Rightarrow> exn option \<times> 'a log" where
  "save_df_to_csv W clean_file_name dataframe_dict lg = save_loop W dataframe_dict lg"

section \<open>Database Loader\<close>

text \<open>The text of \<open>QUERY\<close>, an f-string over five source lines.\<close>

definition copy_query :: "pystr \<Rightarrow> pystr" where
  "copy_query file_name =
     [10] @ replicate 24 32 @ str ''COPY '' @ file_name @ str '' FROM STDIN WITH'' @
     [10] @ replicate 28 32 @ str ''CSV'' @
     [10] @ replicate 28 32 @ str ''HEADER'' @
     [10] @ replicate 28 32 @ str ''DELIMITER AS '' @ [39, 44, 39] @
     [10] @ replicate 28 32 @ str ''ENCODING '' @ [39] @ str ''UTF8'' @ [39] @
     [10] @ replicate 24 32"

text \<open>
  The \<open>for\<close> loop over \<open>table_schema.items()\<close>: for each table the create statement, then
  the CSV file is opened and copied, and closed when the \<open>with\<close> block is left. The loop
  ends at the first call that raises.
\<close>

fun tables_loop :: "'a world \<Rightarrow> pystr dict \<Rightarrow> 'a log \<Rightarrow> exn option \<times> 'a log" where
  "tables_loop W [] lg = (None, lg)"
| "tables_loop W ((file_name, schema) # rest) lg =
     (case do_call W (Execute (str ''CREATE TABLE IF NOT EXISTS %s (%s)'') [file_name, schema]) lg of
        (Some e, lg1) \<Rightarrow> (Some e, lg1)
      | (None, lg1) \<Rightarrow>
          (case do_call W (OpenFile (file_name @ str ''.csv'')) lg1 of
             (Some e, lg2) \<Rightarrow> (Some e, lg2)
           | (None, lg2) \<Rightarrow>
               (case on_exit W (CloseFile (file_name @ str ''.csv''))
                       (do_call W (CopyExpert (copy_query file_name) (file_name @ str ''.csv'')) lg2) of
                  (Some e, lg3) \<Rightarrow> (Some e, lg3)
                | (None, lg3) \<Rightarrow> tables_loop W rest lg3)))"

text \<open>The handler \<open>except Exception as e: conn.rollback(); ...; raise\<close>.\<close>

definition rollback_and_raise :: "'a world \<Rightarrow> exn \<Rightarrow> 'a log \<Rightarrow> exn option \<times> 'a log" where
  "rollback_and_raise W e lg =
     (case do_call W Rollback lg of
        (Some e', lg1) \<Rightarrow> (Some e', lg1)
      | (None, lg1) \<Rightarrow> (Some e, lg1))"

text \<open>The \<open>try\<close> statement: the loop and the commit are its body.\<close>

definition transaction :: "'a world \<Rightarrow> pystr dict \<Rightarrow> 'a log \<Rightarrow> exn option \<times> 'a log" where
  "transaction W table_schema lg =
     (case tables_loop W table_schema lg of
        (Some e, lg1) \<Rightarrow> rollback_and_raise W e lg1
      | (None, lg1) \<Rightarrow>
          (case do_call W Commit lg1 of
             (Some e, lg2) \<Rightarrow> rollback_and_raise W e lg2
           | (None, lg2) \<Rightarrow> (None, lg2)))"

definition import_to_postgres :: "'a world \<Rightarrow> pystr dict \<Rightarrow> (pystr \<times> pystr) list \<Rightarrow> 'a log \<Rightarrow> exn option \<times> 'a log" where
  "import_to_postgres W table_schema conn_dict lg =
     (case do_call W (Connect conn_dict) lg of
        (Some e, lg1) \<Rightarrow> (Some e, lg1)
      | (None, lg1) \<Rightarrow>
          on_exit W CloseConn
            (case do_call W Cursor lg1 of
               (Some e, lg2) \<Rightarrow> (Some e, lg2)
             | (None, lg2) \<Rightarrow> on_exit W CloseCursor (transaction W table_schema lg2)))"

section \<open>Archiver\<close>

fun archive_loop :: "'a world \<Rightarrow> pystr \<Rightarrow> pystr \<Rightarrow> pystr list \<Rightarrow> 'a log \<Rightarrow> exn option \<times> 'a log" where
  "archive_loop W cwd processed_dir [] lg = (None, lg)"
| "archive_loop W cwd processed_dir (file_name # rest) lg =
     (let csv_file = file_name @ str ''.csv''
      in case do_call W (Rename (path_join cwd csv_file) (path_join processed_dir csv_file)) lg of
           (Some e, lg1) \<Rightarrow> (Some e, lg1)
         | (None, lg1) \<Rightarrow> archive_loop W cwd processed_dir rest lg1)"

definition move_processed_files :: "'a world \<Rightarrow> pystr \<Rightarrow> pystr list \<Rightarrow> 'a log \<Rightarrow> exn option \<times> 'a log" where
  "move_processed_files W cwd processed_files lg =
     (let processed_dir = str ''processed_data''
      in case do_call W (Makedirs processed_dir) lg of
           (Some e, lg1) \<Rightarrow> (Some e, lg1)
         | (None, lg1) \<Rightarrow> archive_loop W cwd processed_dir processed_files lg1)"

section \<open>Orchestrator\<close>

text \<open>
  What a run is given: the Unicode tables, the listing and the name of the working
  directory, the readers, what \<open>load_config\<close> returns or raises, and the outside world.
\<close>

record 'a env =
  tables :: unicode
  listing :: "pystr list"
  cwd :: pystr
  readers :: "'a readers"
  config :: "exn + (pystr \<times> pystr) list"
  world :: "'a world"

datatype stage =
  DISCOVER | STAGE | LOAD | NORMALIZE | SCHEMA | SERIALIZE | CONFIG | DB_LOAD | ARCHIVE

datatype status = Returned | Exit nat

text \<open>
  The body of the \<open>try\<close> of \<open>main\<close>: the exception that leaves it, if any, the stage
  functions that were called, in order, and the log of the calls made.
\<close>

definition main_body :: "'a env \<Rightarrow> exn option \<times> stage list \<times> 'a log" where
  "main_body E =
     (let U = tables E; W = world E;
          data_dir = str ''unprocessed_data'';
          data_files = find_data_files U (listing E)
      in if data_files = [] then
           (Some (ValueError ''No data files found to process''), [DISCOVER], [])
         else
           let lg1 = configure_data_dir W (cwd E) data_files data_dir [];
               df_dict = create_df_dict U (readers E) (cwd E) data_files data_dir;
               s3 = [DISCOVER, STAGE, LOAD]
           in if df_dict = [] then
                (Some (ValueError ''Failed to process any data files''), s3, lg1)
              else
                (case clean_file_names U (map fst df_dict) df_dict of
                   Inl e \<Rightarrow> (Some e, s3 @ [NORMALIZE], lg1)
                 | Inr (datasets, df_dict1) \<Rightarrow>
                     (case process_dataframes U df_dict1 of (schemas, df_dict2) \<Rightarrow>
                        (case save_df_to_csv W datasets df_dict2 lg1 of
                           (Some e, lg2) \<Rightarrow> (Some e, s3 @ [NORMALIZE, SCHEMA, SERIALIZE], lg2)
                         | (None, lg2) \<Rightarrow>
                             (case config E of
                                Inl e \<Rightarrow> (Some e, s3 @ [NORMALIZE, SCHEMA, SERIALIZE, CONFIG], lg2)
                              | Inr db_config \<Rightarrow>
                                  (case import_to_postgres W schemas db_config lg2 of
                                     (Some e, lg3) \<Rightarrow>
                                       (Some e, s3 @ [NORMALIZE, SCHEMA, SERIALIZE, CONFIG, DB_LOAD], lg3)
                                   | (None, lg3) \<Rightarrow>
                                       (case move_processed_files W (cwd E) datasets lg3 of (r, lg4) \<Rightarrow>
                                          (r, s3 @ [NORMALIZE, SCHEMA, SERIALIZE, CONFIG, DB_LOAD, ARCHIVE],
                                           lg4))))))))"

text \<open>\<open>except Exception as e: ...; sys.exit(1)\<close>\<close>

definition main :: "'a env \<Rightarrow> status \<times> stage list \<times> 'a log" where
  "main E =
     (case main_body E of
        (Some e, stages, lg) \<Rightarrow> (Exit 1, stages, lg)
      | (None, stages, lg) \<Rightarrow> (Returned, stages, lg))"

section \<open>The normalizer of the specification\<close>

text \<open>
  The reference definition, written from the seven steps of the specification and not
  from the code: (a) a text that contains a dot and does not start with one loses
  everything from its first dot on; (b) the dots that remain become underscores; (c) the
  twelve Turkish letters become their ASCII letters and the string is lower-cased;
  (d) every character outside \<open>[a-z0-9_]\<close> becomes an underscore; (e) runs of underscores
  collapse to one; (f) leading and trailing underscores are stripped; (g) a non-empty
  result that starts with a digit gets the prefix \<open>col_\<close>.
\<close>

definition is_safe :: "codepoint \<Rightarrow> bool" where
  "is_safe c = (is_ascii_lower c \<or> is_ascii_digit c \<or> c = USCORE)"

fun upto_first_dot :: "pystr \<Rightarrow> pystr" where
  "upto_first_dot [] = []"
| "upto_first_dot (c # cs) = (if c = DOT then [] else c # upto_first_dot cs)"

definition translit :: "codepoint \<Rightarrow> codepoint" where
  "translit c =
     (if c = 305 then 105 else if c = 304 then 73
      else if c = 287 then 103 else if c = 286 then 71
      else if c = 252 then 117 else if c = 220 then 85
      else if c = 351 then 115 else if c = 350 then 83
      else if c = 246 then 111 else if c = 214 then 79
      else if c = 231 then 99 else if c = 199 then 67
      else c)"

fun collapse_runs :: "pystr \<Rightarrow> pystr" where
  "collapse_runs (c # d # cs) =
     (if c = USCORE \<and> d = USCORE then collapse_runs (d # cs) else c # collapse_runs (d # cs))"
| "collapse_runs cs = cs"

definition normalize_spec :: "unicode \<Rightarrow> pystr \<Rightarrow> pystr" where
  "normalize_spec U text0 =
     (let a = (if DOT \<in> set text0 \<and> \<not> startswith text0 [DOT] then upto_first_dot text0
               else text0);
          b = map (\<lambda>c. if c = DOT then USCORE else c) a;
          c = lower U (map translit b);
          d = map (\<lambda>x. if is_safe x then x else USCORE) c;
          e = collapse_runs d;
          f = strip e USCORE
      in if f \<noteq> [] \<and> is_ascii_digit (hd f) then str ''col_'' @ f else f)"

section \<open>Auxiliary notions for the proofs\<close>

text \<open>Two underscores in a row, somewhere in the string.\<close>

fun has_double_us :: "pystr \<Rightarrow> bool" where
  "has_double_us [] = False"
| "has_double_us [c] = False"
| "has_double_us (c # d # cs) = ((c = USCORE \<and> d = USCORE) \<or> has_double_us (d # cs))"

text \<open>The last three steps of \<open>clean_text\<close>, on the string that the first \<open>re.sub\<close> returns.\<close>

definition last_steps :: "unicode \<Rightarrow> pystr \<Rightarrow> pystr" where
  "last_steps U text3 =
     (let text5 = strip (sub_underscores text3) USCORE
      in if text5 \<noteq> [] \<and> isdigit U (hd text5) then str ''col_'' @ text5 else text5)"

text \<open>
  An ASCII character that is neither a letter nor a digit: the normalizer turns it into
  an underscore, or it is one.
\<close>

definition becomes_underscore :: "codepoint \<Rightarrow> bool" where
  "becomes_underscore c =
     (c < 128 \<and> \<not> is_ascii_lower c \<and> \<not> is_ascii_upper c \<and> \<not> is_ascii_digit c)"

text \<open>
  Whether loading the file \<open>f\<close> ends in one of the four places that count an error: its
  reader raises, or its extension is not supported. This depends on the file alone, not
  on the state of the loop.
\<close>

definition file_fails :: "unicode \<Rightarrow> 'a readers \<Rightarrow> pystr \<Rightarrow> pystr \<Rightarrow> bool" where
  "file_fails U R data_path f =
     (let file_path = path_join data_path f;
          file_extension = lower U (snd (splitext f))
      in if file_extension = str ''.csv'' then isl (read_csv R file_path)
         else if file_extension \<in> set excel_extensions then isl (read_excel R file_path)
         else if file_extension = str ''.json'' then isl (read_json R file_path)
         else True)"

text \<open>Readers that raise on every file, and readers that return an empty table for every CSV file.\<close>

definition failing_readers :: "unit readers" where
  "failing_readers =
     \<lparr> read_csv = (\<lambda>p. Inl (Raised 0)), read_excel = (\<lambda>p. Inl (Raised 0)),
       read_json = (\<lambda>p. Inl JSONDecodeError) \<rparr>"

definition csv_readers :: "unit readers" where
  "csv_readers =
     \<lparr> read_csv = (\<lambda>p. Inr \<lparr>columns = [], dtypes = [], cells = ()\<rparr>),
       read_excel = (\<lambda>p. Inl (Raised 0)),
       read_json = (\<lambda>p. Inl JSONDecodeError) \<rparr>"

text \<open>A world in which every call returns, and a run in a directory with the given listing.\<close>

definition quiet_world :: "unit world" where
  "quiet_world = (\<lambda>lg c. None)"

definition sample_env :: "pystr list \<Rightarrow> unit readers \<Rightarrow> unit env" where
  "sample_env files R =
     \<lparr> tables = sample_unicode, listing = files, cwd = str ''/w'', readers = R,
       config = Inr [(str ''host'', str ''localhost'')], world = quiet_world \<rparr>"

text \<open>The calls of the per-table loop of \<open>import_to_postgres\<close>.\<close>

fun loop_call :: "'a call \<Rightarrow> bool" where
  "loop_call (Execute q ps) = True"
| "loop_call (OpenFile p) = True"
| "loop_call (CopyExpert q p) = True"
| "loop_call (CloseFile p) = True"
| "loop_call c = False"

text \<open>
  Three worlds for concrete runs of the loader: one where only the commit raises, one
  where copying raises and then the rollback raises too, and one where copying the second
  table \<open>u\<close> raises.
\<close>

definition commit_fails :: "unit world" where
  "commit_fails = (\<lambda>lg c. if c = Commit then Some (Raised 1) else None)"

definition rollback_fails :: "unit world" where
  "rollback_fails =
     (\<lambda>lg c. case c of CopyExpert q p \<Rightarrow> Some (Raised 1) | Rollback \<Rightarrow> Some (Raised 2) | _ \<Rightarrow> None)"

definition second_copy_fails :: "unit world" where
  "second_copy_fails =
     (\<lambda>lg c. case c of CopyExpert q p \<Rightarrow> (if p = str ''u.csv'' then Some (Raised 7) else None)
                    | _ \<Rightarrow> None)"

text \<open>
  One round of the loop of \<open>import_to_postgres\<close>: its four calls, the log entries it
  makes (the round stops after a failed create statement or a failed open; the file is
  closed whether the copy raised or not), and the exception that leaves the round.
\<close>

definition round_calls :: "pystr \<Rightarrow> pystr \<Rightarrow> 'a call list" where
  "round_calls file_name schema =
     [Execute (str ''CREATE TABLE IF NOT EXISTS %s (%s)'') [file_name, schema],
      OpenFile (file_name @ str ''.csv''),
      CopyExpert (copy_query file_name) (file_name @ str ''.csv''),
      CloseFile (file_name @ str ''.csv'')]"

fun answers :: "'a world \<Rightarrow> 'a call list \<Rightarrow> 'a log \<Rightarrow> 'a log" where
  "answers W [] lg = []"
| "answers W (c # cs) lg = (c, W lg c) # answers W cs (lg @ [(c, W lg c)])"

definition round_log :: "'a world \<Rightarrow> pystr \<Rightarrow> pystr \<Rightarrow> 'a log \<Rightarrow> 'a log" where
  "round_log W file_name schema lg =
     (let es = answers W (round_calls file_name schema) lg
      in if snd (es ! 0) \<noteq> None then take 1 es
         else if snd (es ! 1) \<noteq> None then take 2 es
         else es)"

definition round_error :: "'a world \<Rightarrow> pystr \<Rightarrow> pystr \<Rightarrow> 'a log \<Rightarrow> exn option" where
  "round_error W file_name schema lg =
     (let es = answers W (round_calls file_name schema) lg
      in if snd (es ! 0) \<noteq> None then snd (es ! 0)
         else if snd (es ! 1) \<noteq> None then snd (es ! 1)
         else if snd (es ! 3) \<noteq> None then snd (es ! 3)
         else snd (es ! 2))"

text \<open>
  The log once connection and cursor are open, and the calls that a run of
  \<open>import_to_postgres\<close> adds to the log it starts from.
\<close>

definition opened :: "'a log \<Rightarrow> (pystr \<times> pystr) list \<Rightarrow> 'a log" where
  "opened lg conn_dict = lg @ [(Connect conn_dict, None), (Cursor, None)]"

definition run_calls :: "'a world \<Rightarrow> pystr dict \<Rightarrow> (pystr \<times> pystr) list \<Rightarrow> 'a log \<Rightarrow> 'a log" where
  "run_calls W table_schema conn_dict lg =
     drop (length lg) (snd (import_to_postgres W table_schema conn_dict lg))"

section \<open>Properties of the Name Normalizer\<close>

lemmas char_classes = is_ascii_upper_def is_ascii_lower_def is_ascii_digit_def
  in_word_class_def is_safe_def

lemmas clean_text_eval = clean_text_def str_def startswith_def split_first_def replace_def
  translate_def TR_MAPPING_def lower_def lower_char_def is_ascii_upper_def sub_special_def
  in_word_class_def is_ascii_lower_def is_ascii_digit_def strip_def isdigit_def

lemma has_double_us_iff:
  "has_double_us s \<longleftrightarrow> (\<exists>xs ys. s = xs @ [USCORE, USCORE] @ ys)"
proof (induction s rule: has_double_us.induct)
  case 1
  show ?case by simp
next
  case (2 c)
  show ?case by (auto simp: append_eq_Cons_conv)
next
  case (3 c d cs)
  show ?case
  proof
    assume "has_double_us (c # d # cs)"
    then consider "c = USCORE \<and> d = USCORE" | "has_double_us (d # cs)" by auto
    then show "\<exists>xs ys. c # d # cs = xs @ [USCORE, USCORE] @ ys"
    proof cases
      case 1
      then have "c # d # cs = [] @ [USCORE, USCORE] @ cs" by simp
      then show ?thesis by blast
    next
      case 2
      with "3.IH" obtain xs ys where "d # cs = xs @ [USCORE, USCORE] @ ys" by blast
      then have "c # d # cs = (c # xs) @ [USCORE, USCORE] @ ys" by simp
      then show ?thesis by blast
    qed
  next
    assume "\<exists>xs ys. c # d # cs = xs @ [USCORE, USCORE] @ ys"
    then obtain xs ys where e: "c # d # cs = xs @ [USCORE, USCORE] @ ys" by blast
    show "has_double_us (c # d # cs)"
    proof (cases xs)
      case Nil
      with e show ?thesis by simp
    next
      case (Cons x xs')
      with e have "d # cs = xs' @ [USCORE, USCORE] @ ys" by simp
      with "3.IH" have "has_double_us (d # cs)" by blast
      then show ?thesis by simp
    qed
  qed
qed

lemma lower_char_no_upper:
  "lower_tab_ok U \<Longrightarrow> d \<in> set (lower_char U pre c suf) \<Longrightarrow> \<not> is_ascii_upper d"
proof -
  assume ok: "lower_tab_ok U" and d: "d \<in> set (lower_char U pre c suf)"
  show "\<not> is_ascii_upper d"
  proof (cases "is_ascii_upper c \<or> c < 128")
    case True
    with d show ?thesis by (auto simp: lower_char_def is_ascii_upper_def split: if_splits)
  next
    case False
    with d have "128 \<le> c" and "d \<in> set (lower_tab U pre c suf)"
      by (auto simp: lower_char_def)
    with ok show ?thesis unfolding lower_tab_ok_def by blast
  qed
qed

lemma lower_from_no_upper:
  "lower_tab_ok U \<Longrightarrow> d \<in> set (lower_from U pre s) \<Longrightarrow> \<not> is_ascii_upper d"
  by (induction s arbitrary: pre) (auto dest: lower_char_no_upper)

lemma lower_no_upper:
  "lower_tab_ok U \<Longrightarrow> d \<in> set (lower U s) \<Longrightarrow> \<not> is_ascii_upper d"
  unfolding lower_def by (rule lower_from_no_upper)

lemma sub_special_safe:
  "\<forall>d\<in>set s. \<not> is_ascii_upper d \<Longrightarrow> \<forall>c\<in>set (sub_special s). is_safe c"
  by (auto simp: sub_special_def is_safe_def in_word_class_def)

lemma set_sub_underscores: "set (sub_underscores s) \<subseteq> set s"
proof (induction s rule: sub_underscores.induct)
  case 1
  show ?case by simp
next
  case (2 c cs)
  show ?case
  proof (cases "c = USCORE")
    case True
    with 2 have "set (sub_underscores (dropWhile (\<lambda>d. d = USCORE) cs)) \<subseteq> set cs"
      using set_dropWhileD by fastforce
    with True show ?thesis by auto
  next
    case False
    with 2 show ?thesis by auto
  qed
qed

lemma sub_underscores_head:
  "sub_underscores s = c # t \<Longrightarrow> \<exists>t'. s = c # t'"
  by (cases s) (auto split: if_splits)

lemma sub_underscores_no_double: "\<not> has_double_us (sub_underscores s)"
proof (induction s rule: sub_underscores.induct)
  case 1
  show ?case by simp
next
  case (2 c cs)
  show ?case
  proof (cases "c = USCORE")
    case True
    let ?r = "dropWhile (\<lambda>d. d = USCORE) cs"
    from 2 True have ih: "\<not> has_double_us (sub_underscores ?r)" by simp
    show ?thesis
    proof (cases "sub_underscores ?r")
      case Nil
      with True show ?thesis by simp
    next
      case (Cons e t)
      then obtain t' where r: "?r = e # t'" using sub_underscores_head by blast
      then have "e \<noteq> USCORE" using hd_dropWhile[of "\<lambda>d. d = USCORE" cs] by auto
      with True Cons ih show ?thesis by simp
    qed
  next
    case False
    with 2 have ih: "\<not> has_double_us (sub_underscores cs)" by simp
    with False show ?thesis by (cases "sub_underscores cs") auto
  qed
qed

lemma sub_underscores_id: "\<not> has_double_us s \<Longrightarrow> sub_underscores s = s"
proof (induction s rule: sub_underscores.induct)
  case 1
  show ?case by simp
next
  case (2 c cs)
  show ?case
  proof (cases "c = USCORE")
    case True
    with "2.prems" have nd: "\<not> has_double_us cs" and "cs = [] \<or> hd cs \<noteq> USCORE"
      by (cases cs; auto)+
    then have "dropWhile (\<lambda>d. d = USCORE) cs = cs" by (cases cs) auto
    with 2 True nd show ?thesis by simp
  next
    case False
    with "2.prems" have "\<not> has_double_us cs" by (cases cs) auto
    with 2 False show ?thesis by simp
  qed
qed

lemma clean_text_last_steps:
  "clean_text U x =
     last_steps U (sub_special (lower U (translate (replace
       (if DOT \<in> set x \<and> \<not> startswith x [DOT] then split_first x DOT else x)
       DOT USCORE) TR_MAPPING)))"
  by (simp add: clean_text_def last_steps_def Let_def)

lemma strip_decomp: "\<exists>a b. s = a @ strip s ch @ b"
proof -
  let ?P = "\<lambda>c. c = ch"
  let ?m = "dropWhile ?P s"
  have "s = takeWhile ?P s @ ?m" by simp
  moreover have "rev ?m = takeWhile ?P (rev ?m) @ dropWhile ?P (rev ?m)" by simp
  then have "?m = rev (dropWhile ?P (rev ?m)) @ rev (takeWhile ?P (rev ?m))"
    by (metis rev_append rev_rev_ident)
  ultimately have "s = takeWhile ?P s @ strip s ch @ rev (takeWhile ?P (rev ?m))"
    by (simp add: strip_def)
  then show ?thesis by blast
qed

lemma set_strip: "set (strip s ch) \<subseteq> set s"
  using strip_decomp[of s ch] by (metis Un_upper1 Un_upper2 set_append subset_trans)

lemma strip_no_double: "\<not> has_double_us s \<Longrightarrow> \<not> has_double_us (strip s ch)"
proof
  assume nd: "\<not> has_double_us s" and "has_double_us (strip s ch)"
  then obtain xs ys where "strip s ch = xs @ [USCORE, USCORE] @ ys"
    using has_double_us_iff by blast
  moreover obtain a b where "s = a @ strip s ch @ b" using strip_decomp by blast
  ultimately have "s = (a @ xs) @ [USCORE, USCORE] @ (ys @ b)" by simp
  then have "has_double_us s" using has_double_us_iff by blast
  with nd show False by simp
qed

lemma dropWhile_Cons_head: "dropWhile P s = c # t \<Longrightarrow> \<not> P c"
  by (induction s) (auto split: if_splits)

lemma rstrip_Cons:
  assumes "rev (dropWhile P (rev m)) = c # cs"
  shows "\<not> P (last (c # cs))" and "\<exists>t. m = c # cs @ t"
proof -
  define k where "k = dropWhile P (rev m)"
  from assms have k: "k = rev (c # cs)" unfolding k_def by (metis rev_rev_ident)
  then have "k \<noteq> []" by simp
  then obtain x xs where kx: "k = x # xs" by (cases k) blast+
  then have "\<not> P x" unfolding k_def by (rule dropWhile_Cons_head)
  moreover from k kx have "last (c # cs) = x" by (metis last_rev list.sel(1) rev_rev_ident)
  ultimately show "\<not> P (last (c # cs))" by simp
  have "rev m = takeWhile P (rev m) @ k" unfolding k_def by simp
  then have "m = rev k @ rev (takeWhile P (rev m))" by (metis rev_append rev_rev_ident)
  with k have "m = c # cs @ rev (takeWhile P (rev m))" by simp
  then show "\<exists>t. m = c # cs @ t" by (rule exI)
qed

lemma strip_ends: "strip s ch = c # cs \<Longrightarrow> c \<noteq> ch \<and> last (c # cs) \<noteq> ch"
proof -
  define m where "m = dropWhile (\<lambda>c. c = ch) s"
  assume "strip s ch = c # cs"
  then have e: "rev (dropWhile (\<lambda>c. c = ch) (rev m)) = c # cs" by (simp add: strip_def m_def)
  from rstrip_Cons(2)[OF e] obtain t where "m = c # cs @ t" by blast
  then have "c \<noteq> ch" unfolding m_def by (rule dropWhile_Cons_head)
  with rstrip_Cons(1)[OF e] show ?thesis by simp
qed

lemma strip_id:
  assumes "\<And>c cs. s = c # cs \<Longrightarrow> c \<noteq> ch \<and> last (c # cs) \<noteq> ch"
  shows "strip s ch = s"
proof (cases s)
  case Nil
  then show ?thesis by (simp add: strip_def)
next
  case (Cons c cs)
  with assms have h: "c \<noteq> ch" and l: "last (c # cs) \<noteq> ch" by auto
  from Cons h have d: "dropWhile (\<lambda>c. c = ch) s = s" by simp
  obtain x xs where r: "rev s = x # xs" using Cons by (cases "rev s") auto
  then have "x = last (c # cs)" using Cons by (metis last_rev list.sel(1) rev_rev_ident)
  with l r have "dropWhile (\<lambda>c. c = ch) (rev s) = rev s" by simp
  with d show ?thesis by (simp add: strip_def)
qed

lemma str_col: "str ''col_'' = [99, 111, 108, 95]"
  by (simp add: str_def)

lemma isdigit_safe: "is_safe c \<Longrightarrow> isdigit U c = is_ascii_digit c"
  by (auto simp: isdigit_def char_classes)

lemma last_steps_safe:
  assumes safe: "\<forall>c\<in>set t. is_safe c"
  shows "\<forall>c\<in>set (last_steps U t). is_safe c"
    and "\<not> has_double_us (last_steps U t)"
    and "last_steps U t = c # cs \<Longrightarrow> \<not> is_ascii_digit c \<and> c \<noteq> USCORE \<and> last (c # cs) \<noteq> USCORE"
proof -
  let ?t5 = "strip (sub_underscores t) USCORE"
  have s5: "\<forall>c\<in>set ?t5. is_safe c"
    using safe set_strip[of "sub_underscores t" USCORE] set_sub_underscores[of t] by blast
  have nd5: "\<not> has_double_us ?t5"
    by (rule strip_no_double) (rule sub_underscores_no_double)
  show "\<forall>c\<in>set (last_steps U t). is_safe c"
    using s5 by (auto simp: last_steps_def Let_def str_col char_classes)
  show "\<not> has_double_us (last_steps U t)"
  proof (cases "?t5 \<noteq> [] \<and> isdigit U (hd ?t5)")
    case True
    then obtain d ds where t5: "?t5 = d # ds" by (cases ?t5) auto
    with True s5 have "is_ascii_digit d" using isdigit_safe[of d U] by auto
    then have "d \<noteq> USCORE" by (simp add: is_ascii_digit_def)
    with nd5 t5 True show ?thesis by (simp add: last_steps_def Let_def str_col)
  next
    case False
    with nd5 show ?thesis by (auto simp: last_steps_def Let_def)
  qed
  show "\<not> is_ascii_digit c \<and> c \<noteq> USCORE \<and> last (c # cs) \<noteq> USCORE"
    if r: "last_steps U t = c # cs"
  proof (cases "?t5 \<noteq> [] \<and> isdigit U (hd ?t5)")
    case True
    then obtain d ds where t5: "?t5 = d # ds" by (cases ?t5) auto
    then have "last (d # ds) \<noteq> USCORE" using strip_ends by blast
    with True t5 r show ?thesis
      by (auto simp: last_steps_def Let_def str_col is_ascii_digit_def)
  next
    case False
    with r have t5: "?t5 = c # cs" by (auto simp: last_steps_def Let_def)
    then have e: "c \<noteq> USCORE \<and> last (c # cs) \<noteq> USCORE" using strip_ends by blast
    from t5 s5 have "is_safe c" by auto
    with False t5 have "\<not> is_ascii_digit c" using isdigit_safe[of c U] by auto
    with e show ?thesis by simp
  qed
qed

lemma lower_from_id:
  "\<forall>c\<in>set s. c < 128 \<and> \<not> is_ascii_upper c \<Longrightarrow> lower_from U pre s = s"
  by (induction s arbitrary: pre) (auto simp: lower_char_def)

lemma map_of_TR_MAPPING_ascii: "c < 128 \<Longrightarrow> map_of TR_MAPPING c = None"
  by (simp add: TR_MAPPING_def str_def)

lemma safe_ascii: "is_safe c \<Longrightarrow> c < 128 \<and> \<not> is_ascii_upper c \<and> c \<noteq> DOT \<and> in_word_class c"
  by (auto simp: char_classes)

lemma first_steps_safe_id:
  assumes "\<forall>c\<in>set x. is_safe c"
  shows "sub_special (lower U (translate (replace
       (if DOT \<in> set x \<and> \<not> startswith x [DOT] then split_first x DOT else x)
       DOT USCORE) TR_MAPPING)) = x"
proof -
  from assms have nodot: "DOT \<notin> set x" using safe_ascii by blast
  then have "replace x DOT USCORE = x" by (auto simp: replace_def intro: map_idI)
  moreover have "translate x TR_MAPPING = x"
  proof -
    have "(case map_of TR_MAPPING c of Some d \<Rightarrow> d | None \<Rightarrow> c) = c" if "c \<in> set x" for c
      using that assms safe_ascii[of c] by (simp add: map_of_TR_MAPPING_ascii)
    then show ?thesis unfolding translate_def by (intro map_idI)
  qed
  moreover have "lower U x = x"
    unfolding lower_def using assms by (intro lower_from_id) (auto dest: safe_ascii)
  moreover have "sub_special x = x"
    unfolding sub_special_def using assms safe_ascii by (intro map_idI) auto
  ultimately show ?thesis using nodot by simp
qed

lemma last_steps_id:
  assumes "\<not> has_double_us r"
    and "\<And>c cs. r = c # cs \<Longrightarrow> \<not> isdigit U c \<and> c \<noteq> USCORE \<and> last (c # cs) \<noteq> USCORE"
  shows "last_steps U r = r"
proof -
  have "sub_underscores r = r" using assms(1) by (rule sub_underscores_id)
  moreover have "strip r USCORE = r"
    using assms(2) by (intro strip_id) auto
  ultimately show ?thesis using assms(2) by (cases r) (auto simp: last_steps_def Let_def)
qed

lemma upto_first_dot_eq: "upto_first_dot s = split_first s DOT"
  by (induction s) (auto simp: split_first_def)

lemma translit_eq: "(case map_of TR_MAPPING c of Some d \<Rightarrow> d | None \<Rightarrow> c) = translit c"
  by (simp add: TR_MAPPING_def str_def translit_def)

lemma translate_eq: "translate s TR_MAPPING = map translit s"
  by (simp add: translate_def translit_eq)

lemma collapse_runs_us:
  "collapse_runs (USCORE # cs) = USCORE # collapse_runs (dropWhile (\<lambda>d. d = USCORE) cs)"
  by (induction cs) auto

lemma collapse_runs_other: "c \<noteq> USCORE \<Longrightarrow> collapse_runs (c # cs) = c # collapse_runs cs"
  by (cases cs) auto

lemma sub_underscores_eq: "sub_underscores s = collapse_runs s"
proof (induction s rule: sub_underscores.induct)
  case 1
  show ?case by simp
next
  case (2 c cs)
  show ?case
  proof (cases "c = USCORE")
    case True
    with 2 show ?thesis by (simp add: collapse_runs_us)
  next
    case False
    with 2 show ?thesis by (simp add: collapse_runs_other)
  qed
qed

lemma sub_special_eq:
  "\<forall>d\<in>set s. \<not> is_ascii_upper d \<Longrightarrow>
     sub_special s = map (\<lambda>x. if is_safe x then x else USCORE) s"
  by (auto simp: sub_special_def is_safe_def in_word_class_def)

lemma last_steps_digit:
  assumes "\<forall>c\<in>set t. is_safe c"
  shows "last_steps U t =
     (let f = strip (collapse_runs t) USCORE
      in if f \<noteq> [] \<and> is_ascii_digit (hd f) then str ''col_'' @ f else f)"
proof -
  let ?f = "strip (sub_underscores t) USCORE"
  have "\<forall>c\<in>set ?f. is_safe c"
    using assms set_strip[of "sub_underscores t" USCORE] set_sub_underscores[of t] by blast
  then have "?f \<noteq> [] \<Longrightarrow> isdigit U (hd ?f) = is_ascii_digit (hd ?f)"
    using isdigit_safe[of "hd ?f" U] by simp
  then show ?thesis by (auto simp: last_steps_def Let_def sub_underscores_eq)
qed


lemma sample_unicode_ok: "lower_tab_ok sample_unicode"
  by (simp add: lower_tab_ok_def sample_unicode_def is_ascii_upper_def)

lemma clean_text_of_safe:
  assumes "\<forall>c\<in>set x. is_safe c"
  shows "clean_text U x = last_steps U x"
  using clean_text_last_steps[of U x] first_steps_safe_id[OF assms, of U] by simp

lemma sub_underscores_replicate:
  "sub_underscores (replicate n USCORE) = (if n = 0 then [] else [USCORE])"
  by (cases n) simp_all

lemma strip_one: "strip [ch] ch = []" and strip_Nil: "strip [] ch = []"
  by (simp_all add: strip_def)

lemma all_underscores_empty:
  assumes "\<forall>c\<in>set x. becomes_underscore c"
  shows "clean_text U x = []"
proof -
  define base where
    "base = (if DOT \<in> set x \<and> \<not> startswith x [DOT] then split_first x DOT else x)"
  have "set base \<subseteq> set x"
    unfolding base_def split_first_def by (auto dest: set_takeWhileD)
  with assms have b: "\<forall>c\<in>set base. becomes_underscore c" by blast
  define t1 where "t1 = replace base DOT USCORE"
  have t1: "\<forall>c\<in>set t1. becomes_underscore c"
    using b unfolding t1_def replace_def by (auto simp: becomes_underscore_def char_classes)
  have "translate t1 TR_MAPPING = t1"
  proof -
    have "(case map_of TR_MAPPING c of Some d \<Rightarrow> d | None \<Rightarrow> c) = c" if "c \<in> set t1" for c
      using that t1 by (simp add: map_of_TR_MAPPING_ascii becomes_underscore_def)
    then show ?thesis unfolding translate_def by (intro map_idI)
  qed
  moreover have "lower U t1 = t1"
    unfolding lower_def using t1 by (intro lower_from_id) (auto simp: becomes_underscore_def)
  moreover have "sub_special t1 = replicate (length t1) USCORE"
    using t1 unfolding sub_special_def
    by (intro replicate_eqI) (auto simp: becomes_underscore_def in_word_class_def)
  ultimately have "clean_text U x = last_steps U (replicate (length t1) USCORE)"
    using clean_text_last_steps[of U x] unfolding t1_def base_def by simp
  also have "\<dots> = []"
    by (simp add: last_steps_def sub_underscores_replicate strip_one strip_Nil)
  finally show ?thesis .
qed

section \<open>The claims about the Name Normalizer\<close>

text \<open>
  Claim C1. \<open>clean_text\<close> equals the reference definition given by the ordered steps of
  the specification, for every input string, and in particular
  \<open>clean_text\<close> of the ten Turkish letters of the test (given here by their code points)
  is \<open>"iscigusoci"\<close>, and
  \<open>clean_text("test.file.csv") = "test"\<close>. The code keeps \<open>[a-zA-Z0-9_]\<close> where the
  specification keeps \<open>[a-z0-9_]\<close>; the two agree because the string was lower-cased
  before, which is where the fact about the Unicode tables is used.
\<close>

theorem clean_text_refines_spec:
  assumes "lower_tab_ok U"
  shows "clean_text U x = normalize_spec U x
    \<and> clean_text U [304, 351, 231, 105, 287, 252, 350, 246, 199, 305] = str ''iscigusoci''
    \<and> clean_text U (str ''test.file.csv'') = str ''test''"
proof (intro conjI)
  define b where "b = replace
       (if DOT \<in> set x \<and> \<not> startswith x [DOT] then split_first x DOT else x) DOT USCORE"
  define t2 where "t2 = lower U (translate b TR_MAPPING)"
  have nu: "\<forall>d\<in>set t2. \<not> is_ascii_upper d"
    unfolding t2_def using assms lower_no_upper by blast
  then have safe: "\<forall>c\<in>set (sub_special t2). is_safe c" by (rule sub_special_safe)
  have "clean_text U x = last_steps U (sub_special t2)"
    unfolding t2_def b_def by (rule clean_text_last_steps)
  also have "\<dots> = (let f = strip (collapse_runs (sub_special t2)) USCORE
      in if f \<noteq> [] \<and> is_ascii_digit (hd f) then str ''col_'' @ f else f)"
    using safe by (rule last_steps_digit)
  also have "\<dots> = (let f = strip (collapse_runs (map (\<lambda>x. if is_safe x then x else USCORE) t2)) USCORE
      in if f \<noteq> [] \<and> is_ascii_digit (hd f) then str ''col_'' @ f else f)"
    using sub_special_eq[OF nu] by simp
  also have "\<dots> = normalize_spec U x"
    unfolding normalize_spec_def t2_def b_def translate_eq upto_first_dot_eq replace_def
    by (simp only: Let_def)
  finally show "clean_text U x = normalize_spec U x" .
  show "clean_text U [304, 351, 231, 105, 287, 252, 350, 246, 199, 305] = str ''iscigusoci''"
    by (simp add: clean_text_eval)
  show "clean_text U (str ''test.file.csv'') = str ''test''"
    by (simp add: clean_text_eval)
qed

theorem clean_text_refines_spec_witness:
  "lower_tab_ok sample_unicode
   \<and> clean_text sample_unicode [8490, 201, 46, 49] = normalize_spec sample_unicode [8490, 201, 46, 49]
   \<and> clean_text sample_unicode [8490, 201, 46, 49] = str ''k''"
  using clean_text_refines_spec[of sample_unicode "[8490, 201, 46, 49]"]
  by (simp add: lower_tab_ok_def sample_unicode_def clean_text_eval)

text \<open>
  Claim C7. For every input string the result of \<open>clean_text\<close> never starts with a
  digit, never contains a dot, never contains two consecutive underscores, has no leading
  and no trailing underscore, and every character of it is in \<open>[a-z0-9_]\<close>.
\<close>

theorem clean_text_safe_identifier:
  assumes "lower_tab_ok U"
  shows "(\<forall>c cs. clean_text U x = c # cs \<longrightarrow> \<not> is_ascii_digit c \<and> \<not> isdigit U c)
    \<and> DOT \<notin> set (clean_text U x)
    \<and> (\<nexists>xs ys. clean_text U x = xs @ [USCORE, USCORE] @ ys)
    \<and> \<not> startswith (clean_text U x) [USCORE]
    \<and> \<not> endswith (clean_text U x) [USCORE]
    \<and> (\<forall>c\<in>set (clean_text U x). is_ascii_lower c \<or> is_ascii_digit c \<or> c = USCORE)"
proof -
  define t3 where "t3 = sub_special (lower U (translate (replace
       (if DOT \<in> set x \<and> \<not> startswith x [DOT] then split_first x DOT else x)
       DOT USCORE) TR_MAPPING))"
  have r: "clean_text U x = last_steps U t3"
    unfolding t3_def by (rule clean_text_last_steps)
  have safe: "\<forall>c\<in>set t3. is_safe c"
    unfolding t3_def using assms lower_no_upper by (intro sub_special_safe) blast
  note props = last_steps_safe[OF safe, of U]
  have 1: "\<forall>c cs. clean_text U x = c # cs \<longrightarrow> \<not> is_ascii_digit c \<and> \<not> isdigit U c"
  proof (intro allI impI)
    fix c cs assume e: "clean_text U x = c # cs"
    with r have "last_steps U t3 = c # cs" by simp
    then have nd: "\<not> is_ascii_digit c" using props(3) by blast
    from e r props(1) have "is_safe c" by auto
    with nd show "\<not> is_ascii_digit c \<and> \<not> isdigit U c" by (simp add: isdigit_safe)
  qed
  have 6: "\<forall>c\<in>set (clean_text U x). is_ascii_lower c \<or> is_ascii_digit c \<or> c = USCORE"
    using props(1) r by (simp add: is_safe_def)
  then have 2: "DOT \<notin> set (clean_text U x)"
    by (auto simp: is_ascii_lower_def is_ascii_digit_def)
  have 3: "\<nexists>xs ys. clean_text U x = xs @ [USCORE, USCORE] @ ys"
    using props(2) r has_double_us_iff by simp
  have 4: "\<not> startswith (clean_text U x) [USCORE]"
  proof
    assume "startswith (clean_text U x) [USCORE]"
    then obtain cs where "clean_text U x = USCORE # cs"
      by (cases "clean_text U x") (auto simp: startswith_def)
    with r have "last_steps U t3 = USCORE # cs" by simp
    then show False using props(3) by blast
  qed
  have 5: "\<not> endswith (clean_text U x) [USCORE]"
  proof
    assume "endswith (clean_text U x) [USCORE]"
    then have ne: "clean_text U x \<noteq> []" and l: "last (clean_text U x) = USCORE"
      by (cases "clean_text U x" rule: rev_cases; simp add: endswith_def)+
    then obtain c cs where "clean_text U x = c # cs" by (cases "clean_text U x") auto
    with r l have "last_steps U t3 = c # cs" and "last (c # cs) = USCORE" by simp_all
    then show False using props(3) by blast
  qed
  from 1 2 3 4 5 6 show ?thesis by blast
qed

theorem clean_text_safe_identifier_witness:
  "lower_tab_ok sample_unicode
   \<and> clean_text sample_unicode [50, 8490, 46, 120] = str ''col_2k''
   \<and> DOT \<notin> set (str ''col_2k'')
   \<and> (\<nexists>xs ys. str ''col_2k'' = xs @ [USCORE, USCORE] @ ys)
   \<and> \<not> startswith (str ''col_2k'') [USCORE]
   \<and> \<not> endswith (str ''col_2k'') [USCORE]"
proof -
  have e: "clean_text sample_unicode [50, 8490, 46, 120] = str ''col_2k''"
    by (simp add: sample_unicode_def clean_text_eval)
  show ?thesis
    using clean_text_safe_identifier[OF sample_unicode_ok, of "[50, 8490, 46, 120]"]
    unfolding e using sample_unicode_ok e by blast
qed

text \<open>
  Claim C8. \<open>clean_text\<close> is idempotent on safe inputs: for every string \<open>x\<close> whose
  characters are all in \<open>[a-z0-9_]\<close>, \<open>clean_text(clean_text(x)) = clean_text(x)\<close>.
\<close>

theorem clean_text_idempotent_on_safe:
  assumes "\<forall>c\<in>set x. is_safe c"
  shows "clean_text U (clean_text U x) = clean_text U x"
proof -
  define r where "r = last_steps U x"
  note props = last_steps_safe[OF assms, of U, folded r_def]
  have rx: "clean_text U x = r" unfolding r_def using assms by (rule clean_text_of_safe)
  have "clean_text U r = last_steps U r" using props(1) by (rule clean_text_of_safe)
  also have "last_steps U r = r"
  proof (rule last_steps_id)
    show "\<not> has_double_us r" by (rule props(2))
    fix c cs assume e: "r = c # cs"
    then have "is_safe c" using props(1) by simp
    then have "isdigit U c = is_ascii_digit c" by (rule isdigit_safe)
    with props(3)[OF e] show "\<not> isdigit U c \<and> c \<noteq> USCORE \<and> last (c # cs) \<noteq> USCORE" by simp
  qed
  finally show ?thesis using rx by simp
qed

theorem clean_text_idempotent_on_safe_witness:
  "list_all is_safe (str ''__9_lives__x'')
   \<and> clean_text sample_unicode (str ''__9_lives__x'') = str ''col_9_lives_x''
   \<and> clean_text sample_unicode (clean_text sample_unicode (str ''__9_lives__x''))
       = clean_text sample_unicode (str ''__9_lives__x'')"
proof -
  have s: "\<forall>c\<in>set (str ''__9_lives__x''). is_safe c"
    by (simp add: str_def char_classes)
  have "clean_text sample_unicode (str ''__9_lives__x'') = str ''col_9_lives_x''"
    by (simp add: clean_text_eval)
  with s clean_text_idempotent_on_safe[OF s, of sample_unicode] show ?thesis
    by (simp add: list_all_iff)
qed

text \<open>
  Claim C9. Some non-empty input strings are normalized to the empty string: \<open>"###"\<close>, the
  file name \<open>"###.csv"\<close>, and every string all of whose characters are ASCII characters
  other than letters and digits. The prefix \<open>col_\<close> is only given to a non-empty result,
  so the empty identifier is what the callers of \<open>clean_text\<close> get as table key or column
  name.
\<close>

theorem clean_text_empty_identifier:
  "str ''###'' \<noteq> []
   \<and> clean_text U (str ''###'') = []
   \<and> clean_text U (str ''###.csv'') = []
   \<and> (\<forall>x. (\<forall>c\<in>set x. becomes_underscore c) \<longrightarrow> clean_text U x = [])"
  by (simp add: all_underscores_empty) (simp add: clean_text_eval)

theorem clean_text_empty_identifier_witness:
  "list_all becomes_underscore (str ''-- (.) --'')
   \<and> str ''-- (.) --'' \<noteq> []
   \<and> clean_text sample_unicode (str ''-- (.) --'') = []"
proof -
  have s: "\<forall>c\<in>set (str ''-- (.) --''). becomes_underscore c"
    by (simp add: str_def becomes_underscore_def char_classes)
  moreover have "str ''-- (.) --'' \<noteq> []" by (simp add: str_def)
  moreover have "clean_text sample_unicode (str ''-- (.) --'') = []"
    using clean_text_empty_identifier[of sample_unicode] s by blast
  ultimately show ?thesis by (simp add: list_all_iff)
qed

section \<open>File Discovery, Schema Deriver and Serializer\<close>

lemmas find_eval = find_data_files_def endswith_def excel_extensions_def
  str_def lower_def lower_char_def is_ascii_upper_def

text \<open>
  Claim C4. File Discovery is claimed to include exactly the entries whose extension,
  compared case-insensitively, is one of the data extensions, and to exclude
  \<open>config.json\<close> and \<open>config.template.json\<close> case-insensitively. The reserved names are
  indeed compared after \<open>lower\<close>, and the listing of the claim gives the three data files;
  but the extension is tested with \<open>endswith\<close> on the name as it is, so \<open>DATA.CSV\<close> is not
  found, although the loader, which lower-cases the extension, would read it as a CSV
  file.
\<close>

theorem find_data_files_upper_case_extension:
  "find_data_files U [str ''DATA.CSV''] = []
   \<and> lower U (snd (splitext (str ''DATA.CSV''))) = str ''.csv''
   \<and> find_data_files U [str ''a.csv'', str ''b.xlsx'', str ''c.json'', str ''config.json'', str ''d.py'']
       = [str ''a.csv'', str ''b.xlsx'', str ''c.json'']
   \<and> find_data_files U [str ''Config.JSON'', str ''CONFIG.TEMPLATE.JSON''] = []"
  by (simp add: find_eval splitext_def rfind_def)

lemmas schema_eval = process_dataframes_def derive_schema_def series_replace_def
  DTYPE_MAPPING_def clean_text_eval

text \<open>
  Claim C3. The derived SQL type of a column whose dtype is not a key of \<open>DTYPE_MAPPING\<close>
  is claimed to be \<open>VARCHAR\<close>. \<open>Series.replace\<close> leaves such a dtype as it is: the entry
  \<open>"default"\<close> of the mapping is one more key, which no dtype equals, so a \<open>complex128\<close>
  column gets the schema \<open>z complex128\<close>.
\<close>

theorem process_dataframes_no_fallback:
  "series_replace DTYPE_MAPPING (str ''complex128'') = str ''complex128''
   \<and> series_replace DTYPE_MAPPING (str ''int64'') = str ''BIGINT''
   \<and> map_of DTYPE_MAPPING (str ''default'') = Some (str ''VARCHAR'')
   \<and> fst (process_dataframes U
        [(str ''t'', \<lparr>columns = [str ''n'', str ''z''], dtypes = [str ''int64'', str ''complex128''], cells = c\<rparr>)])
       = [(str ''t'', str ''n BIGINT, z complex128'')]"
  by (simp add: schema_eval)

lemma save_loop_calls:
  "\<exists>n. map fst (snd (save_loop W d lg)) =
     map fst lg @ take n (map (\<lambda>(k, df). ToCsv (k @ str ''.csv'') (columns df) df) d)"
proof (induction d arbitrary: lg)
  case Nil
  show ?case by simp
next
  case (Cons p d)
  obtain k df where p: "p = (k, df)" by (cases p)
  let ?c = "ToCsv (k @ str ''.csv'') (columns df) df"
  show ?case
  proof (cases "W lg ?c")
    case None
    from Cons[of "lg @ [(?c, None)]"] obtain n where
      "map fst (snd (save_loop W d (lg @ [(?c, None)]))) =
         map fst (lg @ [(?c, None)]) @ take n (map (\<lambda>(k, df). ToCsv (k @ str ''.csv'') (columns df) df) d)"
      by blast
    with None p have "map fst (snd (save_loop W (p # d) lg)) =
       map fst lg @ take (Suc n) (map (\<lambda>(k, df). ToCsv (k @ str ''.csv'') (columns df) df) (p # d))"
      by (simp add: do_call_def)
    then show ?thesis by blast
  next
    case (Some e)
    with p have "map fst (snd (save_loop W (p # d) lg)) =
       map fst lg @ take (Suc 0) (map (\<lambda>(k, df). ToCsv (k @ str ''.csv'') (columns df) df) (p # d))"
      by (simp add: do_call_def)
    then show ?thesis by blast
  qed
qed

text \<open>
  Claim C10. \<open>save_df_to_csv\<close> never reads its first parameter: for any two values of it
  and the same dictionary, the calls made and their outcomes are the same, and the calls
  are \<open>to_csv\<close> calls for the keys and tables of the dictionary, in order (all of them, or
  those up to the first that raises).
\<close>

theorem save_df_to_csv_ignores_name:
  "save_df_to_csv W name1 dataframe_dict lg = save_df_to_csv W name2 dataframe_dict lg
   \<and> (\<exists>n. map fst (snd (save_df_to_csv W name1 dataframe_dict lg)) =
         map fst lg @ take n (map (\<lambda>(k, df). ToCsv (k @ str ''.csv'') (columns df) df) dataframe_dict))"
  using save_loop_calls[of W dataframe_dict lg] by (simp add: save_df_to_csv_def)

section \<open>Properties of the Tabular Loader\<close>

lemma load_file_fails:
  "file_fails U R p f \<Longrightarrow> load_file U R p f st = (fst st, snd st + 1)"
  by (auto simp: file_fails_def load_file_def load_body_def Let_def isl_def
      split: if_splits sum.splits)

lemma load_file_ok:
  "\<not> file_fails U R p f \<Longrightarrow>
     snd (load_file U R p f st) = snd st
     \<and> fst (load_file U R p f st) = fst (load_file U R p f (fst st, n))"
  by (auto simp: file_fails_def load_file_def load_body_def Let_def isl_def
      split: if_splits sum.splits list.splits prod.splits)

lemma load_loop_count:
  "snd (load_loop U R p fs st) = snd st + length (filter (file_fails U R p) fs)"
proof (induction fs arbitrary: st)
  case Nil
  show ?case by simp
next
  case (Cons f fs)
  show ?case
  proof (cases "file_fails U R p f")
    case True
    then show ?thesis using Cons[of "(fst st, snd st + 1)"] by (simp add: load_file_fails)
  next
    case False
    then show ?thesis using Cons[of "load_file U R p f st"] load_file_ok[OF False, of st]
      by simp
  qed
qed

lemma load_loop_dict_count_free:
  "fst (load_loop U R p fs (df, n)) = fst (load_loop U R p fs (df, m))"
proof (induction fs arbitrary: df n m)
  case Nil
  show ?case by simp
next
  case (Cons f fs)
  show ?case
  proof (cases "file_fails U R p f")
    case True
    then show ?thesis using Cons[of df "n + 1" "m + 1"] by (simp add: load_file_fails)
  next
    case False
    obtain d1 k1 where a: "load_file U R p f (df, n) = (d1, k1)" by (cases "load_file U R p f (df, n)")
    obtain d2 k2 where b: "load_file U R p f (df, m) = (d2, k2)" by (cases "load_file U R p f (df, m)")
    from load_file_ok[OF False, of "(df, n)" m] a b have "d1 = d2" by simp
    with a b Cons[of d2 k1 k2] show ?thesis by simp
  qed
qed

lemma load_loop_skips:
  "fst (load_loop U R p fs st) = fst (load_loop U R p (filter (\<lambda>f. \<not> file_fails U R p f) fs) st)"
proof (induction fs arbitrary: st)
  case Nil
  show ?case by simp
next
  case (Cons f fs)
  show ?case
  proof (cases "file_fails U R p f")
    case True
    have "fst (load_loop U R p (f # fs) st) = fst (load_loop U R p fs (fst st, snd st + 1))"
      using True by (simp add: load_file_fails)
    also have "\<dots> = fst (load_loop U R p fs (fst st, snd st))"
      by (rule load_loop_dict_count_free)
    also have "\<dots> = fst (load_loop U R p (filter (\<lambda>f. \<not> file_fails U R p f) fs) st)"
      using Cons[of st] by simp
    finally show ?thesis using True by simp
  next
    case False
    then show ?thesis using Cons[of "load_file U R p f st"] by simp
  qed
qed

lemma load_body_caught:
  "load_body U R p f st = Inl e \<Longrightarrow> load_file U R p f st = (fst st, snd st + 1)"
  by (simp add: load_file_def)

text \<open>
  Claim C6, as amended. \<open>create_df_dict\<close> returns the dictionary alone. For every list of
  files, the error count the loop ends with is the number of files whose reader raises or
  whose extension is not supported; the dictionary is the one that loading only the other
  files gives; and an exception that leaves the body of the outer \<open>try\<close> is caught there,
  so no exception of a reader leaves the function.
\<close>

theorem create_df_dict_skips_bad_files:
  "create_df_dict U R wd data_files data_directory
     = fst (create_df_state U R wd data_files data_directory)
   \<and> snd (create_df_state U R wd data_files data_directory)
     = length (filter (file_fails U R (path_join wd data_directory)) data_files)
   \<and> create_df_dict U R wd data_files data_directory
     = create_df_dict U R wd
         (filter (\<lambda>f. \<not> file_fails U R (path_join wd data_directory) f) data_files) data_directory
   \<and> (\<forall>f st e. load_body U R (path_join wd data_directory) f st = Inl e \<longrightarrow>
         load_file U R (path_join wd data_directory) f st = (fst st, snd st + 1))
   \<and> (\<forall>f st. file_fails U R (path_join wd data_directory) f \<longrightarrow>
         load_file U R (path_join wd data_directory) f st = (fst st, snd st + 1))"
  using load_loop_count[of U R "path_join wd data_directory" data_files "([], 0)"]
    load_loop_skips[of U R "path_join wd data_directory" data_files "([], 0)"]
  by (simp add: create_df_dict_def create_df_state_def load_body_caught load_file_fails)

lemmas load_eval = create_df_dict_def create_df_state_def load_file_def load_body_def
  file_fails_def path_join_def splitext_def rfind_def find_eval startswith_def
  failing_readers_def csv_readers_def

text \<open>
  Claim C6 as stated says that the loader returns the mapping plus an error count. The
  value returned carries no count: with readers that always raise, the empty list of files
  and the list with the one file \<open>a.csv\<close> give the same result, with zero errors counted
  in the first run and one in the second.
\<close>

theorem create_df_dict_no_error_count:
  "create_df_dict sample_unicode failing_readers (str ''/w'') [] (str ''unprocessed_data'')
     = create_df_dict sample_unicode failing_readers (str ''/w'') [str ''a.csv''] (str ''unprocessed_data'')
   \<and> snd (create_df_state sample_unicode failing_readers (str ''/w'') [] (str ''unprocessed_data'')) = 0
   \<and> snd (create_df_state sample_unicode failing_readers (str ''/w'') [str ''a.csv''] (str ''unprocessed_data'')) = 1"
  by (simp add: load_eval)

theorem create_df_dict_skips_bad_files_witness:
  "create_df_dict sample_unicode csv_readers (str ''/w'') [str ''a.txt'', str ''b.CSV'', str ''c.json''] (str ''unprocessed_data'')
     = [(str ''b.CSV'', \<lparr>columns = [], dtypes = [], cells = ()\<rparr>)]
   \<and> snd (create_df_state sample_unicode csv_readers (str ''/w'') [str ''a.txt'', str ''b.CSV'', str ''c.json''] (str ''unprocessed_data'')) = 2
   \<and> file_fails sample_unicode csv_readers (path_join (str ''/w'') (str ''unprocessed_data'')) (str ''a.txt'')
   \<and> load_file sample_unicode csv_readers (path_join (str ''/w'') (str ''unprocessed_data'')) (str ''a.txt'') ([], 5) = ([], 6)"
proof -
  let ?p = "path_join (str ''/w'') (str ''unprocessed_data'')"
  let ?fs = "[str ''a.txt'', str ''b.CSV'', str ''c.json'']"
  note t = create_df_dict_skips_bad_files[of sample_unicode csv_readers "str ''/w''" ?fs
      "str ''unprocessed_data''"]
  have f: "file_fails sample_unicode csv_readers ?p (str ''a.txt'')"
    by (simp add: load_eval)
  have keep: "filter (\<lambda>f. \<not> file_fails sample_unicode csv_readers ?p f) ?fs = [str ''b.CSV'']"
    by (simp add: load_eval)
  have one: "create_df_dict sample_unicode csv_readers (str ''/w'') [str ''b.CSV''] (str ''unprocessed_data'')
     = [(str ''b.CSV'', \<lparr>columns = [], dtypes = [], cells = ()\<rparr>)]"
    by (simp add: load_eval)
  have two: "length (filter (file_fails sample_unicode csv_readers ?p) ?fs) = 2"
    by (simp add: load_eval)
  have c1: "create_df_dict sample_unicode csv_readers (str ''/w'') ?fs (str ''unprocessed_data'')
     = [(str ''b.CSV'', \<lparr>columns = [], dtypes = [], cells = ()\<rparr>)]"
    using t[THEN conjunct2, THEN conjunct2, THEN conjunct1] unfolding keep one .
  have c2: "snd (create_df_state sample_unicode csv_readers (str ''/w'') ?fs (str ''unprocessed_data'')) = 2"
    using t[THEN conjunct2, THEN conjunct1] unfolding two .
  have c4: "load_file sample_unicode csv_readers ?p (str ''a.txt'') ([], 5) = ([], 6)"
    using t f by simp
  from c1 c2 f c4 show ?thesis by (intro conjI)
qed

section \<open>Properties of the Orchestrator\<close>

text \<open>
  Claim C5. When discovery returns no file, \<open>main\<close> ends with exit status 1, only the
  discovery stage has run and no call was made on the file system or the database. When
  the loaded dictionary is empty, \<open>main\<close> ends with exit status 1 after discovery, staging
  and loading: the calls made are those of \<open>configure_data_dir\<close>, and neither the schema
  stage nor the database load is reached.
\<close>

theorem main_guards:
  "(find_data_files (tables E) (listing E) = [] \<longrightarrow>
      main E = (Exit 1, [DISCOVER], [])
      \<and> fst (main_body E) = Some (ValueError ''No data files found to process''))
   \<and> (find_data_files (tables E) (listing E) \<noteq> []
       \<and> create_df_dict (tables E) (readers E) (cwd E)
            (find_data_files (tables E) (listing E)) (str ''unprocessed_data'') = [] \<longrightarrow>
      main E = (Exit 1, [DISCOVER, STAGE, LOAD],
                configure_data_dir (world E) (cwd E) (find_data_files (tables E) (listing E))
                  (str ''unprocessed_data'') [])
      \<and> fst (main_body E) = Some (ValueError ''Failed to process any data files''))"
  by (simp add: main_def main_body_def Let_def)

lemmas stage_eval = configure_data_dir_def do_call_def quiet_world_def sample_env_def

theorem main_guards_witness:
  "main (sample_env [str ''config.json'', str ''notes.txt''] failing_readers) = (Exit 1, [DISCOVER], [])
   \<and> main (sample_env [str ''a.csv''] failing_readers)
       = (Exit 1, [DISCOVER, STAGE, LOAD],
          [(Makedirs (str ''unprocessed_data''), None),
           (Rename (str ''/w/a.csv'') (str ''unprocessed_data/a.csv''), None)])"
proof -
  let ?E0 = "sample_env [str ''config.json'', str ''notes.txt''] failing_readers"
  let ?E1 = "sample_env [str ''a.csv''] failing_readers"
  have a: "find_data_files (tables ?E0) (listing ?E0) = []"
    by (simp add: sample_env_def find_eval sample_unicode_def)
  have b: "find_data_files (tables ?E1) (listing ?E1) = [str ''a.csv'']"
    by (simp add: sample_env_def find_eval)
  have c: "create_df_dict (tables ?E1) (readers ?E1) (cwd ?E1) [str ''a.csv''] (str ''unprocessed_data'') = []"
    by (simp add: sample_env_def load_eval)
  have d: "configure_data_dir (world ?E1) (cwd ?E1) [str ''a.csv''] (str ''unprocessed_data'') []
     = [(Makedirs (str ''unprocessed_data''), None),
        (Rename (str ''/w/a.csv'') (str ''unprocessed_data/a.csv''), None)]"
    by (simp add: stage_eval path_join_def startswith_def endswith_def str_def)
  from main_guards[of ?E0] a have 1: "main ?E0 = (Exit 1, [DISCOVER], [])" by blast
  from main_guards[of ?E1] b c have "main ?E1 = (Exit 1, [DISCOVER, STAGE, LOAD],
      configure_data_dir (world ?E1) (cwd ?E1) [str ''a.csv''] (str ''unprocessed_data'') [])"
    by simp
  with d have 2: "main ?E1 = (Exit 1, [DISCOVER, STAGE, LOAD],
          [(Makedirs (str ''unprocessed_data''), None),
           (Rename (str ''/w/a.csv'') (str ''unprocessed_data/a.csv''), None)])" by simp
  from 1 2 show ?thesis by (intro conjI)
qed

section \<open>Properties of the Database Loader\<close>

lemma issued_append: "issued c (xs @ ys) = issued c xs + issued c ys"
  by (simp add: issued_def)

lemma issued_loop_calls:
  "list_all (\<lambda>e. loop_call (fst e)) new \<Longrightarrow> issued Commit new = 0 \<and> issued Rollback new = 0"
  by (induction new) (auto simp: issued_def)

lemma round_log_calls: "list_all (\<lambda>e. loop_call (fst e)) (round_log W file_name schema lg)"
  by (simp add: round_log_def round_calls_def Let_def)

lemma round_error_None:
  "(round_error W file_name schema lg = None)
     = list_all (\<lambda>e. snd e = None) (round_log W file_name schema lg)"
  by (auto simp: round_error_def round_log_def round_calls_def Let_def)

lemma tables_loop_Cons:
  "tables_loop W ((file_name, schema) # ts) lg =
     (if round_error W file_name schema lg = None
      then tables_loop W ts (lg @ round_log W file_name schema lg)
      else (round_error W file_name schema lg, lg @ round_log W file_name schema lg))"
proof -
  define c1 :: "'a call" where "c1 = Execute (str ''CREATE TABLE IF NOT EXISTS %s (%s)'') [file_name, schema]"
  define c2 :: "'a call" where "c2 = OpenFile (file_name @ str ''.csv'')"
  define c3 :: "'a call" where "c3 = CopyExpert (copy_query file_name) (file_name @ str ''.csv'')"
  define c4 :: "'a call" where "c4 = CloseFile (file_name @ str ''.csv'')"
  have rc: "round_calls file_name schema = [c1, c2, c3, c4]"
    by (simp add: round_calls_def c1_def c2_def c3_def c4_def)
  have tl: "tables_loop W ((file_name, schema) # ts) lg =
     (case do_call W c1 lg of
        (Some e, lg1) \<Rightarrow> (Some e, lg1)
      | (None, lg1) \<Rightarrow>
          (case do_call W c2 lg1 of
             (Some e, lg2) \<Rightarrow> (Some e, lg2)
           | (None, lg2) \<Rightarrow>
               (case on_exit W c4 (do_call W c3 lg2) of
                  (Some e, lg3) \<Rightarrow> (Some e, lg3)
                | (None, lg3) \<Rightarrow> tables_loop W ts lg3)))"
    by (simp only: tables_loop.simps c1_def c2_def c3_def c4_def)
  show ?thesis
    unfolding tl round_error_def round_log_def rc
    by (simp add: Let_def do_call_def on_exit_def split: option.splits)
qed

lemma tables_loop_log:
  "\<exists>new. snd (tables_loop W ts lg) = lg @ new
     \<and> list_all (\<lambda>e. loop_call (fst e)) new
     \<and> (fst (tables_loop W ts lg) = None) = list_all (\<lambda>e. snd e = None) new"
proof (induction ts arbitrary: lg)
  case Nil
  show ?case by simp
next
  case (Cons p ts)
  obtain file_name schema where p: "p = (file_name, schema)" by (cases p)
  define r where "r = round_log W file_name schema lg"
  define err where "err = round_error W file_name schema lg"
  have rc: "list_all (\<lambda>e. loop_call (fst e)) r" unfolding r_def by (rule round_log_calls)
  have en: "(err = None) = list_all (\<lambda>e. snd e = None) r"
    unfolding r_def err_def by (rule round_error_None)
  have step: "tables_loop W (p # ts) lg =
     (if err = None then tables_loop W ts (lg @ r) else (err, lg @ r))"
    unfolding p r_def err_def by (rule tables_loop_Cons)
  show ?case
  proof (cases "err = None")
    case True
    from Cons[of "lg @ r"] obtain new where
      n0: "snd (tables_loop W ts (lg @ r)) = (lg @ r) @ new
         \<and> list_all (\<lambda>e. loop_call (fst e)) new
         \<and> (fst (tables_loop W ts (lg @ r)) = None) = list_all (\<lambda>e. snd e = None) new" ..
    note n = n0[THEN conjunct1] n0[THEN conjunct2, THEN conjunct1]
      n0[THEN conjunct2, THEN conjunct2]
    have s: "tables_loop W (p # ts) lg = tables_loop W ts (lg @ r)"
      using True by (simp add: step del: tables_loop.simps)
    have "snd (tables_loop W (p # ts) lg) = lg @ (r @ new)"
      unfolding s n(1) by simp
    moreover have "list_all (\<lambda>e. loop_call (fst e)) (r @ new)" using rc n(2) by simp
    moreover have "(fst (tables_loop W (p # ts) lg) = None) = list_all (\<lambda>e. snd e = None) (r @ new)"
      unfolding s n(3) using True en by simp
    ultimately have "snd (tables_loop W (p # ts) lg) = lg @ (r @ new)
         \<and> list_all (\<lambda>e. loop_call (fst e)) (r @ new)
         \<and> (fst (tables_loop W (p # ts) lg) = None) = list_all (\<lambda>e. snd e = None) (r @ new)"
      by (intro conjI)
    then show ?thesis by (rule exI)
  next
    case False
    have s: "tables_loop W (p # ts) lg = (err, lg @ r)"
      using False by (auto simp: step simp del: tables_loop.simps)
    have "snd (tables_loop W (p # ts) lg) = lg @ r" unfolding s by simp
    moreover have "(fst (tables_loop W (p # ts) lg) = None) = list_all (\<lambda>e. snd e = None) r"
      unfolding s using en by simp
    ultimately have "snd (tables_loop W (p # ts) lg) = lg @ r
         \<and> list_all (\<lambda>e. loop_call (fst e)) r
         \<and> (fst (tables_loop W (p # ts) lg) = None) = list_all (\<lambda>e. snd e = None) r"
      using rc by (intro conjI)
    then show ?thesis by (rule exI)
  qed
qed

lemma issued_Cons: "issued c (e # es) = (if fst e = c then 1 else 0) + issued c es"
  by (simp add: issued_def)

lemma issued_Nil: "issued c [] = 0"
  by (simp add: issued_def)

text \<open>The try statement, by what the loop returns.\<close>

lemma transaction_log:
  assumes "tables_loop W ts lg = (r, lg @ new)"
    and "list_all (\<lambda>e. loop_call (fst e)) new"
  shows "\<exists>tail. snd (transaction W ts lg) = lg @ new @ tail
     \<and> tail = (case r of
          Some e \<Rightarrow> [(Rollback, W (lg @ new) Rollback)]
        | None \<Rightarrow> (case W (lg @ new) Commit of
             None \<Rightarrow> [(Commit, None)]
           | Some e \<Rightarrow> [(Commit, Some e), (Rollback, W (lg @ new @ [(Commit, Some e)]) Rollback)]))
     \<and> fst (transaction W ts lg) = (case r of
          Some e \<Rightarrow> (case W (lg @ new) Rollback of None \<Rightarrow> Some e | Some e' \<Rightarrow> Some e')
        | None \<Rightarrow> (case W (lg @ new) Commit of
             None \<Rightarrow> None
           | Some e \<Rightarrow> (case W (lg @ new @ [(Commit, Some e)]) Rollback of
                None \<Rightarrow> Some e | Some e' \<Rightarrow> Some e')))"
  using assms(1)
  by (simp add: transaction_def rollback_and_raise_def do_call_def split: option.splits)

lemma import_to_postgres_log:
  fixes W :: "'a world"
  assumes conn: "W lg (Connect cd) = None"
    and cur: "W (lg @ [(Connect cd, None)]) Cursor = None"
  shows "\<exists>loopnew tail o5 o6.
      tables_loop W ts (opened lg cd) = (fst (tables_loop W ts (opened lg cd)), opened lg cd @ loopnew)
    \<and> list_all (\<lambda>e. loop_call (fst e)) loopnew
    \<and> (fst (tables_loop W ts (opened lg cd)) = None) = list_all (\<lambda>e. snd e = None) loopnew
    \<and> tail = (case fst (tables_loop W ts (opened lg cd)) of
          Some e \<Rightarrow> [(Rollback, W (opened lg cd @ loopnew) Rollback)]
        | None \<Rightarrow> (case W (opened lg cd @ loopnew) Commit of
             None \<Rightarrow> [(Commit, None)]
           | Some e \<Rightarrow> [(Commit, Some e),
                        (Rollback, W (opened lg cd @ loopnew @ [(Commit, Some e)]) Rollback)]))
    \<and> run_calls W ts cd lg =
        [(Connect cd, None), (Cursor, None)] @ loopnew @ tail @ [(CloseCursor, o5), (CloseConn, o6)]
    \<and> fst (import_to_postgres W ts cd lg) =
        (if o6 \<noteq> None then o6 else if o5 \<noteq> None then o5
         else case fst (tables_loop W ts (opened lg cd)) of
            Some e \<Rightarrow> (case W (opened lg cd @ loopnew) Rollback of None \<Rightarrow> Some e | Some e' \<Rightarrow> Some e')
          | None \<Rightarrow> (case W (opened lg cd @ loopnew) Commit of
               None \<Rightarrow> None
             | Some e \<Rightarrow> (case W (opened lg cd @ loopnew @ [(Commit, Some e)]) Rollback of
                  None \<Rightarrow> Some e | Some e' \<Rightarrow> Some e')))"
proof -
  define lg2 where "lg2 = opened lg cd"
  define r where "r = fst (tables_loop W ts lg2)"
  from tables_loop_log[of W ts lg2] obtain loopnew where
    n0: "snd (tables_loop W ts lg2) = lg2 @ loopnew
       \<and> list_all (\<lambda>e. loop_call (fst e)) loopnew
       \<and> (fst (tables_loop W ts lg2) = None) = list_all (\<lambda>e. snd e = None) loopnew" ..
  note n = n0[THEN conjunct1] n0[THEN conjunct2, THEN conjunct1] n0[THEN conjunct2, THEN conjunct2]
  have tl: "tables_loop W ts lg2 = (r, lg2 @ loopnew)"
    unfolding r_def using n(1) by (simp add: prod_eq_iff)
  from transaction_log[OF tl n(2)] obtain tail where
    t0: "snd (transaction W ts lg2) = lg2 @ loopnew @ tail
     \<and> tail = (case r of
          Some e \<Rightarrow> [(Rollback, W (lg2 @ loopnew) Rollback)]
        | None \<Rightarrow> (case W (lg2 @ loopnew) Commit of
             None \<Rightarrow> [(Commit, None)]
           | Some e \<Rightarrow> [(Commit, Some e), (Rollback, W (lg2 @ loopnew @ [(Commit, Some e)]) Rollback)]))
     \<and> fst (transaction W ts lg2) = (case r of
          Some e \<Rightarrow> (case W (lg2 @ loopnew) Rollback of None \<Rightarrow> Some e | Some e' \<Rightarrow> Some e')
        | None \<Rightarrow> (case W (lg2 @ loopnew) Commit of
             None \<Rightarrow> None
           | Some e \<Rightarrow> (case W (lg2 @ loopnew @ [(Commit, Some e)]) Rollback of
                None \<Rightarrow> Some e | Some e' \<Rightarrow> Some e')))" ..
  note t = t0[THEN conjunct1] t0[THEN conjunct2, THEN conjunct1] t0[THEN conjunct2, THEN conjunct2]
  define tr where "tr = fst (transaction W ts lg2)"
  define lg3 where "lg3 = lg2 @ loopnew @ tail"
  have trans: "transaction W ts lg2 = (tr, lg3)"
    unfolding tr_def lg3_def using t(1) by (simp add: prod_eq_iff)
  define o5 where "o5 = W lg3 CloseCursor"
  define o6 where "o6 = W (lg3 @ [(CloseCursor, o5)]) CloseConn"
  have lg2': "lg @ [(Connect cd, None), (Cursor, None)] = lg2"
    by (simp add: lg2_def opened_def)
  have imp: "import_to_postgres W ts cd lg =
     (if o6 \<noteq> None then o6 else if o5 \<noteq> None then o5 else tr,
      lg3 @ [(CloseCursor, o5), (CloseConn, o6)])"
    by (auto simp: import_to_postgres_def do_call_def on_exit_def conn cur lg2' trans
        o5_def o6_def split: option.splits)
  have rc: "run_calls W ts cd lg =
        [(Connect cd, None), (Cursor, None)] @ loopnew @ tail @ [(CloseCursor, o5), (CloseConn, o6)]"
    by (simp add: run_calls_def imp lg3_def lg2_def opened_def)
  have res: "fst (import_to_postgres W ts cd lg) =
     (if o6 \<noteq> None then o6 else if o5 \<noteq> None then o5 else tr)"
    by (simp add: imp)
  show ?thesis
    apply (rule exI[of _ loopnew])
    apply (rule exI[of _ tail])
    apply (rule exI[of _ o5])
    apply (rule exI[of _ o6])
    unfolding lg2_def[symmetric] r_def[symmetric]
    using tl n(2) n(3)[folded r_def] t(2) rc res[unfolded tr_def t(3)]
    by (intro conjI)
qed
lemma loop_calls_mem:
  "list_all (\<lambda>e. loop_call (fst e)) l \<Longrightarrow> (c, x) \<in> set l \<Longrightarrow> loop_call c"
  by (auto simp: list_all_iff)

text \<open>
  Claim C2, as amended. Let connection and cursor be open. The per-table loop returns
  exactly when every one of its calls (create statement, opening, copying and closing the
  CSV file) returns. When it does, exactly one commit is issued; if that commit returns,
  no rollback is issued, and the loader returns provided cursor and connection close; if
  the commit raises, one rollback is issued and the loader raises. When a call of the
  loop raises, no commit is issued, exactly one rollback is issued, the loader raises,
  and what it raises is the error that left the loop provided the rollback and the closing
  of cursor and connection return. What the database keeps of a transaction that was
  rolled back is the database's concern: the statement is about the calls issued.
\<close>

theorem import_to_postgres_transaction:
  fixes W :: "'a world"
  assumes conn: "W lg (Connect conn_dict) = None"
    and cur: "W (lg @ [(Connect conn_dict, None)]) Cursor = None"
  shows "((fst (tables_loop W table_schema (opened lg conn_dict)) = None)
            = list_all (\<lambda>e. loop_call (fst e) \<longrightarrow> snd e = None) (run_calls W table_schema conn_dict lg))
    \<and> (fst (tables_loop W table_schema (opened lg conn_dict)) = None \<longrightarrow>
          issued Commit (run_calls W table_schema conn_dict lg) = 1
          \<and> ((Commit, None) \<in> set (run_calls W table_schema conn_dict lg) \<longrightarrow>
                issued Rollback (run_calls W table_schema conn_dict lg) = 0
                \<and> ((CloseCursor, None) \<in> set (run_calls W table_schema conn_dict lg)
                     \<and> (CloseConn, None) \<in> set (run_calls W table_schema conn_dict lg) \<longrightarrow>
                    fst (import_to_postgres W table_schema conn_dict lg) = None))
          \<and> ((Commit, None) \<notin> set (run_calls W table_schema conn_dict lg) \<longrightarrow>
                issued Rollback (run_calls W table_schema conn_dict lg) = 1
                \<and> fst (import_to_postgres W table_schema conn_dict lg) \<noteq> None))
    \<and> (\<forall>e. fst (tables_loop W table_schema (opened lg conn_dict)) = Some e \<longrightarrow>
          issued Commit (run_calls W table_schema conn_dict lg) = 0
          \<and> issued Rollback (run_calls W table_schema conn_dict lg) = 1
          \<and> fst (import_to_postgres W table_schema conn_dict lg) \<noteq> None
          \<and> ((Rollback, None) \<in> set (run_calls W table_schema conn_dict lg)
               \<and> (CloseCursor, None) \<in> set (run_calls W table_schema conn_dict lg)
               \<and> (CloseConn, None) \<in> set (run_calls W table_schema conn_dict lg) \<longrightarrow>
              fst (import_to_postgres W table_schema conn_dict lg) = Some e))"
proof -
  define r where "r = fst (tables_loop W table_schema (opened lg conn_dict))"
  define new where "new = run_calls W table_schema conn_dict lg"
  define res where "res = fst (import_to_postgres W table_schema conn_dict lg)"
  define lg2 where "lg2 = opened lg conn_dict"
  from import_to_postgres_log[OF conn cur, of table_schema, folded r_def new_def res_def lg2_def]
  obtain loopnew tail o5 o6 where
    lc: "list_all (\<lambda>e. loop_call (fst e)) loopnew"
    and ok: "(r = None) = list_all (\<lambda>e. snd e = None) loopnew"
    and tail: "tail = (case r of
          Some e \<Rightarrow> [(Rollback, W (lg2 @ loopnew) Rollback)]
        | None \<Rightarrow> (case W (lg2 @ loopnew) Commit of
             None \<Rightarrow> [(Commit, None)]
           | Some e \<Rightarrow> [(Commit, Some e), (Rollback, W (lg2 @ loopnew @ [(Commit, Some e)]) Rollback)]))"
    and new: "new = [(Connect conn_dict, None), (Cursor, None)] @ loopnew @ tail
                    @ [(CloseCursor, o5), (CloseConn, o6)]"
    and res: "res = (if o6 \<noteq> None then o6 else if o5 \<noteq> None then o5
         else case r of
            Some e \<Rightarrow> (case W (lg2 @ loopnew) Rollback of None \<Rightarrow> Some e | Some e' \<Rightarrow> Some e')
          | None \<Rightarrow> (case W (lg2 @ loopnew) Commit of
               None \<Rightarrow> None
             | Some e \<Rightarrow> (case W (lg2 @ loopnew @ [(Commit, Some e)]) Rollback of
                  None \<Rightarrow> Some e | Some e' \<Rightarrow> Some e')))"
    by blast
  have z: "issued Commit loopnew = 0" "issued Rollback loopnew = 0"
    using issued_loop_calls[OF lc] by simp_all
  have nm: "\<And>x. (Commit, x) \<notin> set loopnew" "\<And>x. (Rollback, x) \<notin> set loopnew"
    "\<And>x. (CloseCursor, x) \<notin> set loopnew" "\<And>x. (CloseConn, x) \<notin> set loopnew"
    using loop_calls_mem[OF lc] by fastforce+
  have A: "(r = None) = list_all (\<lambda>e. loop_call (fst e) \<longrightarrow> snd e = None) new"
  proof -
    have "list_all (\<lambda>e. loop_call (fst e) \<longrightarrow> snd e = None) tail"
      unfolding tail by (simp split: option.splits)
    moreover have "list_all (\<lambda>e. loop_call (fst e) \<longrightarrow> snd e = None) loopnew
        = list_all (\<lambda>e. snd e = None) loopnew"
      using lc by (auto simp: list_all_iff)
    ultimately show ?thesis unfolding new ok by simp
  qed
  have B: "r = None \<longrightarrow>
          issued Commit new = 1
          \<and> ((Commit, None) \<in> set new \<longrightarrow>
                issued Rollback new = 0
                \<and> ((CloseCursor, None) \<in> set new \<and> (CloseConn, None) \<in> set new \<longrightarrow> res = None))
          \<and> ((Commit, None) \<notin> set new \<longrightarrow> issued Rollback new = 1 \<and> res \<noteq> None)"
  proof
    assume rn: "r = None"
    show "issued Commit new = 1
          \<and> ((Commit, None) \<in> set new \<longrightarrow>
                issued Rollback new = 0
                \<and> ((CloseCursor, None) \<in> set new \<and> (CloseConn, None) \<in> set new \<longrightarrow> res = None))
          \<and> ((Commit, None) \<notin> set new \<longrightarrow> issued Rollback new = 1 \<and> res \<noteq> None)"
    proof (cases "W (lg2 @ loopnew) Commit")
      case None
      with rn have t: "tail = [(Commit, None)]" unfolding tail by simp
      show ?thesis unfolding new t res using rn None z nm
        by (auto simp: issued_append issued_Cons issued_Nil)
    next
      case (Some e)
      with rn have t: "tail = [(Commit, Some e), (Rollback, W (lg2 @ loopnew @ [(Commit, Some e)]) Rollback)]"
        unfolding tail by simp
      show ?thesis unfolding new t res using rn Some z nm
        by (auto simp: issued_append issued_Cons issued_Nil split: option.splits)
    qed
  qed
  have C: "\<forall>e. r = Some e \<longrightarrow>
          issued Commit new = 0 \<and> issued Rollback new = 1 \<and> res \<noteq> None
          \<and> ((Rollback, None) \<in> set new \<and> (CloseCursor, None) \<in> set new
               \<and> (CloseConn, None) \<in> set new \<longrightarrow> res = Some e)"
  proof (intro allI impI)
    fix e assume re: "r = Some e"
    then have t: "tail = [(Rollback, W (lg2 @ loopnew) Rollback)]" unfolding tail by simp
    show "issued Commit new = 0 \<and> issued Rollback new = 1 \<and> res \<noteq> None
          \<and> ((Rollback, None) \<in> set new \<and> (CloseCursor, None) \<in> set new
               \<and> (CloseConn, None) \<in> set new \<longrightarrow> res = Some e)"
      unfolding new t res using re z nm
      by (auto simp: issued_append issued_Cons issued_Nil split: option.splits)
  qed
  from A B C show ?thesis unfolding r_def new_def res_def by (intro conjI)
qed

lemmas db_eval = import_to_postgres_def transaction_def rollback_and_raise_def do_call_def
  on_exit_def run_calls_def opened_def issued_def

text \<open>
  Claim C2 as stated fails in two places: the commit is inside the \<open>try\<close>, so when every
  step of the loop returns and the commit raises, a rollback is issued; and when a copy
  raises and the rollback raises too, the caller gets the error of the rollback, not the
  original one.
\<close>

theorem import_to_postgres_commit_or_rollback_raises:
  "fst (tables_loop commit_fails [(str ''t'', str ''a BIGINT'')] (opened [] [])) = None
   \<and> issued Commit (run_calls commit_fails [(str ''t'', str ''a BIGINT'')] [] []) = 1
   \<and> issued Rollback (run_calls commit_fails [(str ''t'', str ''a BIGINT'')] [] []) = 1
   \<and> fst (tables_loop rollback_fails [(str ''t'', str ''a BIGINT'')] (opened [] [])) = Some (Raised 1)
   \<and> fst (import_to_postgres rollback_fails [(str ''t'', str ''a BIGINT'')] [] []) = Some (Raised 2)"
  by (simp add: db_eval commit_fails_def rollback_fails_def)

theorem import_to_postgres_transaction_witness:
  "issued Commit (run_calls quiet_world [(str ''t'', str ''a BIGINT''), (str ''u'', str ''b VARCHAR'')] [] []) = 1
   \<and> issued Rollback (run_calls quiet_world [(str ''t'', str ''a BIGINT''), (str ''u'', str ''b VARCHAR'')] [] []) = 0
   \<and> fst (import_to_postgres quiet_world [(str ''t'', str ''a BIGINT''), (str ''u'', str ''b VARCHAR'')] [] []) = None
   \<and> issued Commit (run_calls second_copy_fails [(str ''t'', str ''a BIGINT''), (str ''u'', str ''b VARCHAR'')] [] []) = 0
   \<and> issued Rollback (run_calls second_copy_fails [(str ''t'', str ''a BIGINT''), (str ''u'', str ''b VARCHAR'')] [] []) = 1
   \<and> fst (import_to_postgres second_copy_fails [(str ''t'', str ''a BIGINT''), (str ''u'', str ''b VARCHAR'')] [] []) = Some (Raised 7)"
proof -
  let ?ts = "[(str ''t'', str ''a BIGINT''), (str ''u'', str ''b VARCHAR'')]"
  have q1: "quiet_world [] (Connect []) = None" "quiet_world ([] @ [(Connect [], None)]) Cursor = None"
    by (simp_all add: quiet_world_def)
  have q2: "fst (tables_loop quiet_world ?ts (opened [] [])) = None"
    by (simp add: db_eval quiet_world_def)
  have q3: "(Commit, None) \<in> set (run_calls quiet_world ?ts [] [])"
    "(CloseCursor, None) \<in> set (run_calls quiet_world ?ts [] [])"
    "(CloseConn, None) \<in> set (run_calls quiet_world ?ts [] [])"
    by (simp_all add: db_eval quiet_world_def)
  note tq = import_to_postgres_transaction[OF q1, of ?ts]
  from tq q2 q3 have a: "issued Commit (run_calls quiet_world ?ts [] []) = 1
     \<and> issued Rollback (run_calls quiet_world ?ts [] []) = 0
     \<and> fst (import_to_postgres quiet_world ?ts [] []) = None"
    by blast
  have s1: "second_copy_fails [] (Connect []) = None"
    "second_copy_fails ([] @ [(Connect [], None)]) Cursor = None"
    by (simp_all add: second_copy_fails_def)
  have s2: "fst (tables_loop second_copy_fails ?ts (opened [] [])) = Some (Raised 7)"
    by (simp add: db_eval second_copy_fails_def str_def)
  have s3: "(Rollback, None) \<in> set (run_calls second_copy_fails ?ts [] [])"
    "(CloseCursor, None) \<in> set (run_calls second_copy_fails ?ts [] [])"
    "(CloseConn, None) \<in> set (run_calls second_copy_fails ?ts [] [])"
    by (simp_all add: db_eval second_copy_fails_def str_def)
  note ts = import_to_postgres_transaction[OF s1, of ?ts]
  from ts s2 s3 have b: "issued Commit (run_calls second_copy_fails ?ts [] []) = 0
     \<and> issued Rollback (run_calls second_copy_fails ?ts [] []) = 1
     \<and> fst (import_to_postgres second_copy_fails ?ts [] []) = Some (Raised 7)"
    by blast
  from a b show ?thesis by (intro conjI) blast+
qed

section \<open>Further properties\<close>

text \<open>
  The normalizer is idempotent on every string, not only on safe ones: a result already
  has the shape that the normalizer leaves alone.
\<close>

theorem clean_text_idempotent:
  assumes "lower_tab_ok U"
  shows "clean_text U (clean_text U x) = clean_text U x"
proof -
  define t3 where "t3 = sub_special (lower U (translate (replace
       (if DOT \<in> set x \<and> \<not> startswith x [DOT] then split_first x DOT else x)
       DOT USCORE) TR_MAPPING))"
  define r where "r = last_steps U t3"
  have rx: "clean_text U x = r"
    unfolding r_def t3_def by (rule clean_text_last_steps)
  have safe: "\<forall>c\<in>set t3. is_safe c"
    unfolding t3_def using assms lower_no_upper by (intro sub_special_safe) blast
  note props = last_steps_safe[OF safe, of U, folded r_def]
  have "clean_text U r = last_steps U r" using props(1) by (rule clean_text_of_safe)
  also have "last_steps U r = r"
  proof (rule last_steps_id)
    show "\<not> has_double_us r" by (rule props(2))
    fix c cs assume e: "r = c # cs"
    then have "is_safe c" using props(1) by simp
    then have "isdigit U c = is_ascii_digit c" by (rule isdigit_safe)
    with props(3)[OF e] show "\<not> isdigit U c \<and> c \<noteq> USCORE \<and> last (c # cs) \<noteq> USCORE" by simp
  qed
  finally show ?thesis using rx by simp
qed

theorem clean_text_idempotent_witness:
  "lower_tab_ok sample_unicode
   \<and> clean_text sample_unicode [201, 32, 8490, 46, 99] = str ''k''
   \<and> clean_text sample_unicode (clean_text sample_unicode [201, 32, 8490, 46, 99])
       = clean_text sample_unicode [201, 32, 8490, 46, 99]"
proof -
  have "clean_text sample_unicode [201, 32, 8490, 46, 99] = str ''k''"
    by (simp add: sample_unicode_def clean_text_eval)
  with clean_text_idempotent[OF sample_unicode_ok, of "[201, 32, 8490, 46, 99]"] sample_unicode_ok
  show ?thesis by blast
qed

text \<open>
  What File Discovery returns for a listing: the entries, in the order of the listing,
  whose lower-cased name is not one of the two reserved names and whose name, as it is,
  ends with \<open>.csv\<close>, \<open>.json\<close> or one of the spreadsheet extensions.
\<close>

lemma find_loop_filter:
  "find_loop U fs acc =
     acc @ filter (\<lambda>f. lower U f \<notin> set [str ''config.json'', str ''config.template.json'']
                     \<and> (endswith f (str ''.csv'') \<or> endswith f (str ''.json'')
                          \<or> list_ex (\<lambda>ext. endswith f ext) excel_extensions)) fs"
  by (induction fs arbitrary: acc) simp_all

theorem find_data_files_filter:
  "find_data_files U all_files =
     filter (\<lambda>f. lower U f \<notin> set [str ''config.json'', str ''config.template.json'']
                 \<and> (endswith f (str ''.csv'') \<or> endswith f (str ''.json'')
                      \<or> list_ex (\<lambda>ext. endswith f ext) excel_extensions)) all_files"
  by (simp add: find_data_files_def find_loop_filter)

text \<open>
  The Schema Deriver keeps the keys of the dictionary and their order, changes nothing of
  a table but its column labels, which it normalizes one by one in order, and renders the
  schema of a table from the normalized labels and the replaced dtypes, pair by pair in
  column order.
\<close>

lemma process_loop_keys:
  "map fst (snd (process_loop U d schemas)) = map fst d
   \<and> map (\<lambda>p. columns (snd p)) (snd (process_loop U d schemas))
       = map (\<lambda>p. map (clean_text U) (columns (snd p))) d
   \<and> map (\<lambda>p. dtypes (snd p)) (snd (process_loop U d schemas)) = map (\<lambda>p. dtypes (snd p)) d
   \<and> map (\<lambda>p. cells (snd p)) (snd (process_loop U d schemas)) = map (\<lambda>p. cells (snd p)) d"
proof (induction d arbitrary: schemas)
  case Nil
  show ?case by simp
next
  case (Cons p d)
  obtain file_name df where p: "p = (file_name, df)" by (cases p)
  define schemas1 where "schemas1 = AList.update file_name (fst (derive_schema U df)) schemas"
  obtain s1 rest1 where r: "process_loop U d schemas1 = (s1, rest1)"
    by (cases "process_loop U d schemas1")
  have step: "snd (process_loop U (p # d) schemas) = (file_name, snd (derive_schema U df)) # rest1"
    using r unfolding p schemas1_def by (simp add: case_prod_beta)
  from Cons[of schemas1] r have ih:
    "map fst rest1 = map fst d"
    "map (\<lambda>p. columns (snd p)) rest1 = map (\<lambda>p. map (clean_text U) (columns (snd p))) d"
    "map (\<lambda>p. dtypes (snd p)) rest1 = map (\<lambda>p. dtypes (snd p)) d"
    "map (\<lambda>p. cells (snd p)) rest1 = map (\<lambda>p. cells (snd p)) d"
    by simp_all
  show ?case unfolding step using ih p by (simp add: derive_schema_def Let_def)
qed

theorem process_dataframes_columns:
  "map fst (snd (process_dataframes U d)) = map fst d
   \<and> map (\<lambda>p. columns (snd p)) (snd (process_dataframes U d))
       = map (\<lambda>p. map (clean_text U) (columns (snd p))) d
   \<and> map (\<lambda>p. dtypes (snd p)) (snd (process_dataframes U d)) = map (\<lambda>p. dtypes (snd p)) d
   \<and> map (\<lambda>p. cells (snd p)) (snd (process_dataframes U d)) = map (\<lambda>p. cells (snd p)) d
   \<and> fst (derive_schema U df)
       = join (str '', '')
           (map (\<lambda>(col, type). col @ str '' '' @ type)
              (zip (map (clean_text U) (columns df)) (map (series_replace DTYPE_MAPPING) (dtypes df))))"
  using process_loop_keys[of U d "[]"]
  by (simp add: process_dataframes_def derive_schema_def Let_def)

end
